theory Spec2Isabelle
  imports Main "HOL-Library.AList"
begin

section \<open>Values and errors of the Python program\<close>

text \<open>
  The development embeds \<^verbatim>\<open>src/sniffles/snf.py\<close>: the classes \<^verbatim>\<open>SNFile\<close> and
  \<^verbatim>\<open>LazySNFile\<close>. Python integers are \<^typ>\<open>int\<close>, byte strings are lists of
  \<^typ>\<open>char\<close> (8-bit values), dictionaries are maps, and every place where the Python
  raises is a branch that yields an \<open>error\<close> carrying the source line of the raise.
  The dictionary \<^verbatim>\<open>self.blocks\<close>, whose keys the program sorts, is an association list
  in insertion order (\<^const>\<open>map_of\<close> looks a key up, \<^const>\<open>AList.update\<close> stores a value).
\<close>

type_synonym bytes = "char list"

datatype error =
    ZeroDivisionError nat
  | KeyError nat
  | AttributeError nat
  | TypeError nat
  | OSError nat
  | ValueError nat
  | UnpicklingError nat

text \<open>
  \<^verbatim>\<open>int(a / b)\<close>: true division followed by truncation toward zero. The quotient is taken
  exactly: this is what Python computes as long as the operands are below \<open>2 ^ 53\<close> in
  magnitude; beyond that Python's float quotient is rounded (or overflows), which is not
  modelled, and the statements that depend on it carry the bound. The caller checks
  \<open>b = 0\<close>, where Python raises.
\<close>

definition int_quot :: "int \<Rightarrow> int \<Rightarrow> int" where
  "int_quot a b = sgn a * sgn b * (\<bar>a\<bar> div \<bar>b\<bar>)"

text \<open>
  \<^verbatim>\<open>math.ceil(a / float(b))\<close> for \<open>b \<noteq> 0\<close>, again with the exact quotient, and again
  Python's value only for operands below \<open>2 ^ 53\<close> in magnitude.
\<close>

definition ceil_quot :: "int \<Rightarrow> int \<Rightarrow> int" where
  "ceil_quot a b = - ((- a) div b)"

text \<open>\<^verbatim>\<open>range(start, stop, step)\<close> for a step other than 0.\<close>

definition py_range :: "int \<Rightarrow> int \<Rightarrow> int \<Rightarrow> int list" where
  "py_range start stop step =
     (if 0 < step
      then map (\<lambda>i. start + int i * step) [0 ..< nat ((stop - start + step - 1) div step)]
      else if step < 0
      then map (\<lambda>i. start + int i * step) [0 ..< nat ((start - stop - step - 1) div (- step))]
      else [])"

section \<open>Data model\<close>

text \<open>
  The configuration object, the candidate records and the depth source
  (\<^verbatim>\<open>lead_provider\<close>) are built outside \<^verbatim>\<open>snf.py\<close>; only the attributes the file reads are
  modelled. \<^verbatim>\<open>lead_provider.end\<close> is the field \<open>lp_end\<close>.
\<close>

record config =
  snf_block_size :: int
  coverage_binsize :: int
  coverage_binsize_combine :: int
  output_rnames :: bool
  combine_close_handles :: bool

record svcand =
  pos :: int
  svtype :: string
  rnames :: "string list option"

record lead_provider =
  covrtab_min_bin :: int
  lp_end :: int
  covrtab_fwd :: "int \<rightharpoonup> int"
  covrtab_rev :: "int \<rightharpoonup> int"

text \<open>
  A block is the dictionary \<^verbatim>\<open>{svtype: [...], ..., "_COVERAGE": {...}}\<close>: the candidate
  lists by type tag in \<open>cands\<close>, the value under the key \<^verbatim>\<open>"_COVERAGE"\<close> in \<open>COVERAGE\<close>.
\<close>

record block =
  cands :: "string \<rightharpoonup> svcand list"
  COVERAGE :: "int \<rightharpoonup> int"

text \<open>
  \<^verbatim>\<open>{svtype: [] for svtype in sv.TYPES}\<close> followed by \<^verbatim>\<open>["_COVERAGE"] = {}\<close>. The list
  \<^verbatim>\<open>sv.TYPES\<close> is defined in another module and is a parameter \<open>TYPES\<close> throughout.
\<close>

definition new_block :: "string list \<Rightarrow> block" where
  "new_block TYPES =
     \<lparr>cands = (\<lambda>t. if t \<in> set TYPES \<and> t \<noteq> ''_COVERAGE'' then Some [] else None),
      COVERAGE = Map.empty\<rparr>"

text \<open>
  The device handle: \<^verbatim>\<open>False\<close> when closed, else an open file object with the name of
  the file it was opened on, its mode and its position.
\<close>

datatype mode = Rd | Wr

datatype handle = HFalse | HFile string mode nat

text \<open>
  The index is a dictionary whose shape depends on who filled it: \<^verbatim>\<open>write_and_index\<close>
  stores \<^verbatim>\<open>block_id -> (offset, length)\<close> under integer keys, \<^verbatim>\<open>read_header\<close> loads
  \<^verbatim>\<open>contig -> block id -> [[offset, length], ...]\<close> under string keys (JSON object keys
  are strings).
\<close>

datatype pykey = IKey int | SKey string

datatype ientry = Span int int | Ranges "string \<rightharpoonup> (int \<times> int) list"

type_synonym index = "pykey \<rightharpoonup> ientry"

text \<open>
  The parsed header: a JSON object with an optional \<^verbatim>\<open>"index"\<close> member and further
  members that the store does not read.
\<close>

record header =
  h_index :: "index option"
  h_meta :: "(string \<times> string) list"

text \<open>
  One \<^verbatim>\<open>SNFile\<close> object. \<open>u_header\<close> and \<open>u_index\<close> are the attributes \<^verbatim>\<open>_header\<close> and
  \<^verbatim>\<open>_index\<close>; \<open>header_length\<close> is \<open>None\<close> until \<^verbatim>\<open>read_header\<close> assigns the attribute;
  \<open>lazy\<close> tells whether the object is a \<^verbatim>\<open>LazySNFile\<close>.
\<close>

record snfile =
  config :: config
  handle :: handle
  filename :: "string option"
  blocks :: "(int \<times> block) list"
  u_header :: "header option"
  u_index :: "index option"
  total_length :: int
  header_length :: "nat option"
  lazy :: bool

text \<open>\<^verbatim>\<open>SNFile.__init__\<close>.\<close>

definition init :: "bool \<Rightarrow> config \<Rightarrow> handle \<Rightarrow> string option \<Rightarrow> snfile" where
  "init lz cfg h fname =
     \<lparr>config = cfg, handle = h, filename = fname, blocks = [], u_header = None,
      u_index = Some Map.empty, total_length = 0, header_length = None, lazy = lz\<rparr>"

section \<open>Block aggregator: \<^verbatim>\<open>store\<close>\<close>

definition store :: "string list \<Rightarrow> svcand \<Rightarrow> snfile \<Rightarrow> (error + unit) \<times> snfile" where
  "store TYPES cand self =
     (if snf_block_size (config self) = 0 then (Inl (ZeroDivisionError 51), self)
      else
        let block_index = int_quot (pos cand) (snf_block_size (config self))
                            * snf_block_size (config self);
            blks = (case map_of (blocks self) block_index of
                      None \<Rightarrow> AList.update block_index (new_block TYPES) (blocks self)
                    | Some _ \<Rightarrow> blocks self);
            cand' = (if \<not> output_rnames (config self) then cand\<lparr>rnames := None\<rparr> else cand);
            self' = self\<lparr>blocks := blks\<rparr>
        in case map_of blks block_index of
             None \<Rightarrow> (Inl (KeyError 57), self')
           | Some blk \<Rightarrow>
               if svtype cand' = ''_COVERAGE'' then (Inl (AttributeError 57), self')
               else (case cands blk (svtype cand') of
                       None \<Rightarrow> (Inl (KeyError 57), self')
                     | Some l \<Rightarrow>
                         (Inr (),
                          self'\<lparr>blocks := AList.update block_index
                             (blk\<lparr>cands := (cands blk)(svtype cand' \<mapsto> l @ [cand'])\<rparr>) blks\<rparr>)))"

text \<open>Storing a sequence of candidates one after the other; the first raise ends it.\<close>

fun store_all :: "string list \<Rightarrow> svcand list \<Rightarrow> snfile \<Rightarrow> (error + unit) \<times> snfile" where
  "store_all TYPES [] self = (Inr (), self)"
| "store_all TYPES (c # cs) self =
     (case store TYPES c self of
        (Inl e, self') \<Rightarrow> (Inl e, self')
      | (Inr _, self') \<Rightarrow> store_all TYPES cs self')"

section \<open>Coverage annotator: \<^verbatim>\<open>annotate_block_coverages\<close>\<close>

text \<open>
  The body of the \<^verbatim>\<open>for bin in range(...)\<close> loop, over the list of bins still to visit.
  The accumulator is \<open>(coverage_fwd, coverage_rev, coverage_sum, bin_count)\<close>.
\<close>

fun annotate_loop ::
  "string list \<Rightarrow> config \<Rightarrow> lead_provider \<Rightarrow> int list \<Rightarrow> int \<times> int \<times> int \<times> int \<Rightarrow>
   (int \<times> block) list \<Rightarrow> (error + unit) \<times> (int \<times> block) list" where
  "annotate_loop TYPES cfg lp [] acc blks = (Inr (), blks)"
| "annotate_loop TYPES cfg lp (bin # bins) (coverage_fwd, coverage_rev, coverage_sum, bin_count) blks =
     (let coverage_fwd = (case covrtab_fwd lp bin of Some d \<Rightarrow> coverage_fwd + d
                          | None \<Rightarrow> coverage_fwd);
          coverage_rev = (case covrtab_rev lp bin of Some d \<Rightarrow> coverage_rev + d
                          | None \<Rightarrow> coverage_rev);
          coverage_sum = coverage_sum + (coverage_fwd + coverage_rev);
          bin_count = bin_count + 1
      in if coverage_binsize_combine cfg = 0 then (Inl (ZeroDivisionError 82), blks)
         else if bin mod coverage_binsize_combine cfg = 0 then
           (if snf_block_size cfg = 0 then (Inl (ZeroDivisionError 83), blks)
            else
              let block_index = int_quot bin (snf_block_size cfg) * snf_block_size cfg
              in if bin_count = 0 then (Inl (ZeroDivisionError 85), blks)
                 else
                   let coverage_total_curr = ceil_quot coverage_sum bin_count;
                       blks' =
                         (if 0 < coverage_total_curr then
                            (let blks1 = (case map_of blks block_index of
                                            None \<Rightarrow> AList.update block_index (new_block TYPES) blks
                                          | Some _ \<Rightarrow> blks)
                             in case map_of blks1 block_index of
                                  None \<Rightarrow> blks1
                                | Some blk \<Rightarrow>
                                    AList.update block_index
                                      (blk\<lparr>COVERAGE := (COVERAGE blk)(bin \<mapsto> coverage_total_curr)\<rparr>)
                                      blks1)
                          else blks)
                   in annotate_loop TYPES cfg lp bins (coverage_fwd, coverage_rev, 0, 0) blks')
         else annotate_loop TYPES cfg lp bins
                (coverage_fwd, coverage_rev, coverage_sum, bin_count) blks)"

text \<open>
  The method itself. Its parameter \<^verbatim>\<open>resolution\<close> is never read: the combine resolution
  is \<^verbatim>\<open>self.config.coverage_binsize_combine\<close>.
\<close>

definition annotate_block_coverages ::
  "string list \<Rightarrow> lead_provider \<Rightarrow> int \<Rightarrow> snfile \<Rightarrow> (error + unit) \<times> snfile" where
  "annotate_block_coverages TYPES lp resolution self =
     (let cfg = config self in
      if coverage_binsize cfg = 0 then (Inl (ZeroDivisionError 62), self)
      else
        let start_bin = covrtab_min_bin lp;
            end_bin = int_quot (lp_end lp) (coverage_binsize cfg) * coverage_binsize cfg;
            (r, blks) = annotate_loop TYPES cfg lp
                          (py_range start_bin (end_bin + coverage_binsize cfg) (coverage_binsize cfg))
                          (0, 0, 0, 0) (blocks self)
        in (r, self\<lparr>blocks := blks\<rparr>))"

section \<open>Devices and library functions\<close>

text \<open>
  The storage is a map from file names to contents; \<open>out\<close> collects what the program
  prints. A message records the identities the source interpolates into the printed
  line: the file name for a header error (line 124), the contig, the block id and the file
  name for a block error (line 151), each with the exception.
\<close>

datatype message =
    HeaderError "string option" error
  | BlockError pykey string "string option" error

record io =
  fs :: "string \<rightharpoonup> bytes"
  out :: "message list"

definition content :: "io \<Rightarrow> string \<Rightarrow> bytes" where
  "content dev fn = (case fs dev fn of None \<Rightarrow> [] | Some c \<Rightarrow> c)"

text \<open>
  Writing \<open>data\<close> at position \<open>p\<close> of a file: a gap past the end is filled with zero
  bytes; writing no bytes leaves the file as it is.
\<close>

definition write_at :: "bytes \<Rightarrow> nat \<Rightarrow> bytes \<Rightarrow> bytes" where
  "write_at c p data =
     (if data = [] then c
      else take p c @ replicate (p - length c) (CHR 0x00) @ data @ drop (p + length data) c)"

text \<open>\<^verbatim>\<open>readline()\<close> on the bytes from the current position on.\<close>

definition readline :: "bytes \<Rightarrow> bytes" where
  "readline rest =
     (case dropWhile (\<lambda>c. c \<noteq> CHR 0x0A) rest of
        [] \<Rightarrow> rest
      | _ # _ \<Rightarrow> takeWhile (\<lambda>c. c \<noteq> CHR 0x0A) rest @ [CHR 0x0A])"

text \<open>\<^verbatim>\<open>bytes.strip()\<close>: ASCII whitespace off both ends.\<close>

definition is_space :: "char \<Rightarrow> bool" where
  "is_space c \<longleftrightarrow> c \<in> set [CHR 0x20, CHR 0x09, CHR 0x0A, CHR 0x0D, CHR 0x0B, CHR 0x0C]"

definition strip :: "bytes \<Rightarrow> bytes" where
  "strip s = rev (dropWhile is_space (rev (dropWhile is_space s)))"

text \<open>
  \<^verbatim>\<open>pickle\<close>, \<^verbatim>\<open>gzip\<close> and \<^verbatim>\<open>json\<close> are libraries, not code of the program: they are
  parameters. Decoding functions that can raise return an option.
\<close>

record lib =
  pickle_dumps :: "block \<Rightarrow> bytes"
  pickle_loads :: "bytes \<Rightarrow> block option"
  gzip_compress :: "bytes \<Rightarrow> bytes"
  gzip_decompress :: "bytes \<Rightarrow> bytes option"
  json_loads :: "bytes \<Rightarrow> header option"

text \<open>\<^verbatim>\<open>str(block_index)\<close>, for a block id given as an integer or as a string.\<close>

datatype pyval = PInt int | PStr string

definition digit_char :: "nat \<Rightarrow> char" where
  "digit_char d = ''0123456789'' ! d"

fun digits :: "nat \<Rightarrow> string" where
  "digits n = (if n < 10 then [digit_char n] else digits (n div 10) @ [digit_char (n mod 10)])"

definition str_int :: "int \<Rightarrow> string" where
  "str_int i = (if i < 0 then CHR ''-'' # digits (nat (- i)) else digits (nat i))"

fun py_str :: "pyval \<Rightarrow> string" where
  "py_str (PInt i) = str_int i"
| "py_str (PStr s) = s"

section \<open>\<^verbatim>\<open>SNFile\<close>: opening, closing, writing\<close>

definition is_open :: "snfile \<Rightarrow> bool" where
  "is_open self \<longleftrightarrow> handle self \<noteq> HFalse"

definition close :: "snfile \<Rightarrow> snfile" where
  "close self = (if handle self \<noteq> HFalse then self\<lparr>handle := HFalse\<rparr> else self)"

text \<open>
  \<^verbatim>\<open>SNFile.open\<close>: \<^verbatim>\<open>open(self.filename, "rb")\<close> raises for a file name that is \<^verbatim>\<open>None\<close> and
  for a file that does not exist.
\<close>

definition open_rb :: "snfile \<Rightarrow> io \<Rightarrow> (error + unit) \<times> snfile" where
  "open_rb self dev =
     (let self1 = (if handle self \<noteq> HFalse then close self else self)
      in case filename self1 of
           None \<Rightarrow> (Inl (TypeError 48), self1)
         | Some fn \<Rightarrow>
             (case fs dev fn of
                None \<Rightarrow> (Inl (OSError 48), self1)
              | Some _ \<Rightarrow> (Inr (), self1\<lparr>handle := HFile fn Rd 0\<rparr>)))"

text \<open>The two lines \<^verbatim>\<open>if not self.is_open(): self.open()\<close> that start three methods.\<close>

definition open_if_closed :: "snfile \<Rightarrow> io \<Rightarrow> (error + unit) \<times> snfile" where
  "open_if_closed self dev = (if \<not> is_open self then open_rb self dev else (Inr (), self))"

definition serialize_block :: "lib \<Rightarrow> int \<Rightarrow> snfile \<Rightarrow> error + bytes" where
  "serialize_block L block_id self =
     (case map_of (blocks self) block_id of
        None \<Rightarrow> Inl (KeyError 97)
      | Some blk \<Rightarrow> Inr (pickle_dumps L blk))"

definition unserialize_block :: "lib \<Rightarrow> bytes \<Rightarrow> error + block" where
  "unserialize_block L data =
     (case pickle_loads L data of None \<Rightarrow> Inl (UnpicklingError 100) | Some blk \<Rightarrow> Inr blk)"

text \<open>
  The loop of \<^verbatim>\<open>write_and_index\<close> over the sorted block ids still to write, with the
  running \<open>offset\<close>. Writing needs a handle opened for writing; assigning into \<^verbatim>\<open>_index\<close>
  needs it to be a dictionary.
\<close>

fun write_loop ::
  "lib \<Rightarrow> int list \<Rightarrow> int \<Rightarrow> snfile \<Rightarrow> io \<Rightarrow> (error + unit) \<times> snfile \<times> io" where
  "write_loop L [] offset self dev = (Inr (), self, dev)"
| "write_loop L (block_id # ids) offset self dev =
     (case serialize_block L block_id self of
        Inl e \<Rightarrow> (Inl e, self, dev)
      | Inr pickled \<Rightarrow>
          let data = gzip_compress L pickled in
          (case handle self of
             HFalse \<Rightarrow> (Inl (AttributeError 108), self, dev)
           | HFile fn Rd p \<Rightarrow> (Inl (OSError 108), self, dev)
           | HFile fn Wr p \<Rightarrow>
               let dev1 = dev\<lparr>fs := (fs dev)(fn \<mapsto> write_at (content dev fn) p data)\<rparr>;
                   self1 = self\<lparr>handle := HFile fn Wr (p + length data)\<rparr>;
                   data_len = int (length data)
               in (case u_index self1 of
                     None \<Rightarrow> (Inl (TypeError 110), self1, dev1)
                   | Some idx \<Rightarrow>
                       write_loop L ids (offset + data_len)
                         (self1\<lparr>u_index := Some (idx(IKey block_id \<mapsto> Span offset data_len)),
                                total_length := total_length self1 + data_len\<rparr>)
                         dev1)))"

definition write_and_index :: "lib \<Rightarrow> snfile \<Rightarrow> io \<Rightarrow> (error + unit) \<times> snfile \<times> io" where
  "write_and_index L self dev =
     (case open_if_closed self dev of
        (Inl e, self1) \<Rightarrow> (Inl e, self1, dev)
      | (Inr _, self1) \<Rightarrow>
          (case write_loop L (sort (map fst (blocks self1))) 0 self1 dev of
             (Inl e, self2, dev2) \<Rightarrow> (Inl e, self2, dev2)
           | (Inr _, self2, dev2) \<Rightarrow>
               (Inr (), if combine_close_handles (config self2) then close self2 else self2, dev2)))"

section \<open>\<^verbatim>\<open>SNFile\<close>: reading\<close>

text \<open>
  \<^verbatim>\<open>SNFile.read_header\<close>. The \<^verbatim>\<open>try\<close> covers the read of the line and its parsing; what
  it catches is printed and raised again. \<^verbatim>\<open>self._header["index"]\<close> is outside the \<^verbatim>\<open>try\<close>.
\<close>

definition SNFile_read_header :: "lib \<Rightarrow> snfile \<Rightarrow> io \<Rightarrow> (error + unit) \<times> snfile \<times> io" where
  "SNFile_read_header L self dev =
     (case open_if_closed self dev of
        (Inl e, self1) \<Rightarrow> (Inl e, self1, dev)
      | (Inr _, self1) \<Rightarrow>
          (case handle self1 of
             HFalse \<Rightarrow>
               (Inl (AttributeError 120), self1,
                dev\<lparr>out := out dev @ [HeaderError (filename self1) (AttributeError 120)]\<rparr>)
           | HFile fn Wr p \<Rightarrow>
               (Inl (OSError 120), self1,
                dev\<lparr>out := out dev @ [HeaderError (filename self1) (OSError 120)]\<rparr>)
           | HFile fn Rd p \<Rightarrow>
               let header_text = readline (drop p (content dev fn));
                   self2 = self1\<lparr>handle := HFile fn Rd (p + length header_text),
                                  header_length := Some (length header_text)\<rparr>
               in (case json_loads L (strip header_text) of
                     None \<Rightarrow>
                       (Inl (ValueError 122), self2,
                        dev\<lparr>out := out dev @ [HeaderError (filename self2) (ValueError 122)]\<rparr>)
                   | Some h \<Rightarrow>
                       let self3 = self2\<lparr>u_header := Some h\<rparr>
                       in (case h_index h of
                             None \<Rightarrow> (Inl (KeyError 126), self3, dev)
                           | Some idx \<Rightarrow>
                               let self4 = self3\<lparr>u_index := Some idx\<rparr>
                               in (Inr (),
                                   if combine_close_handles (config self4) then close self4 else self4,
                                   dev)))))"

text \<open>
  One turn of the body of the \<^verbatim>\<open>try\<close> in \<^verbatim>\<open>read_blocks\<close>: seek, read, decompress,
  unpickle. \<^verbatim>\<open>read(n)\<close> reads to the end of the file for \<open>n = -1\<close> and raises for
  \<open>n < -1\<close>.
\<close>

definition read_range :: "lib \<Rightarrow> int \<times> int \<Rightarrow> snfile \<Rightarrow> io \<Rightarrow> (error + block) \<times> snfile" where
  "read_range L r self dev =
     (case r of (block_data_start, block_data_length) \<Rightarrow>
      (case handle self of
         HFalse \<Rightarrow> (Inl (AttributeError 147), self)
       | HFile fn m p \<Rightarrow>
           (case header_length self of
              None \<Rightarrow> (Inl (AttributeError 147), self)
            | Some hl \<Rightarrow>
                if int hl + block_data_start < 0 then (Inl (ValueError 147), self)
                else
                  let p1 = nat (int hl + block_data_start);
                      self1 = self\<lparr>handle := HFile fn m p1\<rparr>
                  in if m = Wr then (Inl (OSError 148), self1)
                     else if block_data_length < - 1 then (Inl (ValueError 148), self1)
                     else
                       let rest = drop p1 (content dev fn);
                           raw = (if block_data_length = - 1 then rest
                                  else take (nat block_data_length) rest);
                           self2 = self1\<lparr>handle := HFile fn m (p1 + length raw)\<rparr>
                       in (case gzip_decompress L raw of
                             None \<Rightarrow> (Inl (OSError 148), self2)
                           | Some data \<Rightarrow>
                               (case unserialize_block L data of
                                  Inl e \<Rightarrow> (Inl e, self2)
                                | Inr blk \<Rightarrow> (Inr blk, self2))))))"

text \<open>
  The \<^verbatim>\<open>for\<close> loop of \<^verbatim>\<open>read_blocks\<close> over the ranges still to read, with the list
  \<^verbatim>\<open>blocks\<close> built so far. The \<^verbatim>\<open>except\<close> branch prints, closes the handle when the
  configuration asks for it, and raises again.
\<close>

fun read_ranges ::
  "lib \<Rightarrow> pykey \<Rightarrow> string \<Rightarrow> (int \<times> int) list \<Rightarrow> block list \<Rightarrow> snfile \<Rightarrow> io \<Rightarrow>
   (error + block list) \<times> snfile \<times> io" where
  "read_ranges L contig block_index [] acc self dev = (Inr acc, self, dev)"
| "read_ranges L contig block_index (r # rs) acc self dev =
     (case read_range L r self dev of
        (Inl e, self1) \<Rightarrow>
          (Inl e,
           if combine_close_handles (config self1) then close self1 else self1,
           dev\<lparr>out := out dev @ [BlockError contig block_index (filename self1) e]\<rparr>)
      | (Inr blk, self1) \<Rightarrow> read_ranges L contig block_index rs (acc @ [blk]) self1 dev)"

section \<open>Objects, the registry, and \<^verbatim>\<open>LazySNFile\<close>\<close>

text \<open>
  Objects live in a store addressed by position; \<open>ACTIVE\<close> is the class attribute
  \<^verbatim>\<open>LazySNFile._ACTIVE\<close>, an ordered dictionary keyed by object identity, as the list of
  its keys from the oldest to the newest.
\<close>

record world =
  objs :: "snfile list"
  ACTIVE :: "nat list"
  io :: io

definition MAX_ACTIVE :: nat where
  "MAX_ACTIVE = 50"

definition obj :: "world \<Rightarrow> nat \<Rightarrow> snfile" where
  "obj w self = objs w ! self"

definition set_obj :: "nat \<Rightarrow> snfile \<Rightarrow> world \<Rightarrow> world" where
  "set_obj self s w = w\<lparr>objs := (objs w)[self := s]\<rparr>"

text \<open>\<^verbatim>\<open>LazySNFile.unload\<close>.\<close>

definition unload :: "nat \<Rightarrow> world \<Rightarrow> world" where
  "unload self w =
     (let w1 = (if self \<in> set (ACTIVE w) then w\<lparr>ACTIVE := removeAll self (ACTIVE w)\<rparr> else w)
      in set_obj self ((obj w1 self)\<lparr>u_header := None, u_index := None\<rparr>) w1)"

text \<open>
  \<^verbatim>\<open>LazySNFile.read_header\<close>: touch the registry, evict the oldest entry when the
  registry is over its cap, put an open handle back to the start of the file
  (\<open>seek_start\<close>: \<^verbatim>\<open>if self.handle: self.handle.seek(0)\<close>), then run
  \<^verbatim>\<open>SNFile.read_header\<close>.
\<close>

definition seek_start :: "snfile \<Rightarrow> snfile" where
  "seek_start s = (case handle s of HFalse \<Rightarrow> s | HFile fn m p \<Rightarrow> s\<lparr>handle := HFile fn m 0\<rparr>)"

definition LazySNFile_read_header :: "lib \<Rightarrow> nat \<Rightarrow> world \<Rightarrow> (error + unit) \<times> world" where
  "LazySNFile_read_header L self w =
     (let w1 = (if self \<in> set (ACTIVE w)
                then w\<lparr>ACTIVE := removeAll self (ACTIVE w) @ [self]\<rparr>
                else w\<lparr>ACTIVE := ACTIVE w @ [self]\<rparr>);
          w2 = (if MAX_ACTIVE < length (ACTIVE w1)
                then (case ACTIVE w1 of
                        [] \<Rightarrow> w1
                      | oldest_snf # rest \<Rightarrow> unload oldest_snf (w1\<lparr>ACTIVE := rest\<rparr>))
                else w1);
          s1 = seek_start (obj w2 self)
      in case SNFile_read_header L s1 (io w2) of
           (r, s2, dev2) \<Rightarrow> (r, set_obj self s2 (w2\<lparr>io := dev2\<rparr>)))"

text \<open>\<^verbatim>\<open>self.read_header()\<close>: the method of the object's class.\<close>

definition read_header :: "lib \<Rightarrow> nat \<Rightarrow> world \<Rightarrow> (error + unit) \<times> world" where
  "read_header L self w =
     (if lazy (obj w self) then LazySNFile_read_header L self w
      else (case SNFile_read_header L (obj w self) (io w) of
              (r, s2, dev2) \<Rightarrow> (r, set_obj self s2 (w\<lparr>io := dev2\<rparr>))))"

text \<open>
  The properties \<^verbatim>\<open>self.index\<close> and \<^verbatim>\<open>self.header\<close>: a \<^verbatim>\<open>LazySNFile\<close> whose \<^verbatim>\<open>_header\<close>
  is \<^verbatim>\<open>None\<close> reads the header first.
\<close>

definition index :: "lib \<Rightarrow> nat \<Rightarrow> world \<Rightarrow> (error + index option) \<times> world" where
  "index L self w =
     (if lazy (obj w self) \<and> u_header (obj w self) = None
      then (case read_header L self w of
              (Inl e, w') \<Rightarrow> (Inl e, w')
            | (Inr _, w') \<Rightarrow> (Inr (u_index (obj w' self)), w'))
      else (Inr (u_index (obj w self)), w))"

definition header :: "lib \<Rightarrow> nat \<Rightarrow> world \<Rightarrow> (error + header option) \<times> world" where
  "header L self w =
     (if lazy (obj w self) \<and> u_header (obj w self) = None
      then (case read_header L self w of
              (Inl e, w') \<Rightarrow> (Inl e, w')
            | (Inr _, w') \<Rightarrow> (Inr (u_header (obj w' self)), w'))
      else (Inr (u_header (obj w self)), w))"

text \<open>The lines \<^verbatim>\<open>if self.config.combine_close_handles: self.close()\<close>.\<close>

definition close_if_configured :: "nat \<Rightarrow> world \<Rightarrow> world" where
  "close_if_configured self w =
     (if combine_close_handles (config (obj w self)) then set_obj self (close (obj w self)) w
      else w)"

text \<open>
  \<^verbatim>\<open>read_blocks\<close>. The property \<^verbatim>\<open>self.index\<close> is evaluated on lines 134, 139 and 145.
  \<^verbatim>\<open>block_index in self.index[contig]\<close> is false for a tuple \<^verbatim>\<open>(offset, length)\<close>, whose
  members are integers.
\<close>

definition read_blocks ::
  "lib \<Rightarrow> pykey \<Rightarrow> pyval \<Rightarrow> nat \<Rightarrow> world \<Rightarrow> (error + block list option) \<times> world" where
  "read_blocks L contig block_index self w =
     (case open_if_closed (obj w self) (io w) of
        (Inl e, s) \<Rightarrow> (Inl e, set_obj self s w)
      | (Inr _, s) \<Rightarrow>
          let w1 = set_obj self s w;
              block_index = py_str block_index
          in (case index L self w1 of
                (Inl e, w2) \<Rightarrow> (Inl e, w2)
              | (Inr None, w2) \<Rightarrow> (Inl (TypeError 134), w2)
              | (Inr (Some idx), w2) \<Rightarrow>
                  if idx contig = None then (Inr None, close_if_configured self w2)
                  else
                    (case index L self w2 of
                       (Inl e, w3) \<Rightarrow> (Inl e, w3)
                     | (Inr None, w3) \<Rightarrow> (Inl (TypeError 139), w3)
                     | (Inr (Some idx3), w3) \<Rightarrow>
                         (case idx3 contig of
                            None \<Rightarrow> (Inl (KeyError 139), w3)
                          | Some (Span offset len) \<Rightarrow> (Inr None, close_if_configured self w3)
                          | Some (Ranges m) \<Rightarrow>
                              if m block_index = None
                              then (Inr None, close_if_configured self w3)
                              else
                                (case index L self w3 of
                                   (Inl e, w4) \<Rightarrow> (Inl e, w4)
                                 | (Inr None, w4) \<Rightarrow> (Inl (TypeError 145), w4)
                                 | (Inr (Some idx4), w4) \<Rightarrow>
                                     (case idx4 contig of
                                        None \<Rightarrow> (Inl (KeyError 145), w4)
                                      | Some (Span offset len) \<Rightarrow> (Inl (TypeError 145), w4)
                                      | Some (Ranges m4) \<Rightarrow>
                                          (case m4 block_index of
                                             None \<Rightarrow> (Inl (KeyError 145), w4)
                                           | Some ranges \<Rightarrow>
                                               (case read_ranges L contig block_index ranges []
                                                       (obj w4 self) (io w4) of
                                                  (Inl e, s5, dev5) \<Rightarrow>
                                                    (Inl e, set_obj self s5 (w4\<lparr>io := dev5\<rparr>))
                                                | (Inr blks, s5, dev5) \<Rightarrow>
                                                    (Inr (Some blks),
                                                     close_if_configured self
                                                       (set_obj self s5 (w4\<lparr>io := dev5\<rparr>)))))))))))"

section \<open>Notions used in the statements about the coverage annotator\<close>

text \<open>
  What a bin adds to the running forward and reverse coverage: its table entry, or
  nothing when the table has no entry for it.
\<close>

definition fwd_delta :: "lead_provider \<Rightarrow> int \<Rightarrow> int" where
  "fwd_delta lp b = (case covrtab_fwd lp b of Some d \<Rightarrow> d | None \<Rightarrow> 0)"
definition rev_delta :: "lead_provider \<Rightarrow> int \<Rightarrow> int" where
  "rev_delta lp b = (case covrtab_rev lp b of Some d \<Rightarrow> d | None \<Rightarrow> 0)"

definition delta :: "lead_provider \<Rightarrow> int \<Rightarrow> int" where
  "delta lp b = fwd_delta lp b + rev_delta lp b"

definition depth_after :: "lead_provider \<Rightarrow> int list \<Rightarrow> int" where
  "depth_after lp bs = sum_list (map (delta lp) bs)"

fun depths :: "lead_provider \<Rightarrow> int \<Rightarrow> int list \<Rightarrow> int list" where
  "depths lp d [] = []"
| "depths lp d (b # bs) = (d + delta lp b) # depths lp (d + delta lp b) bs"

text \<open>
  The block a bin falls in (\<^verbatim>\<open>int(bin / snf_block_size) * snf_block_size\<close>), and the
  coverage entry stored under key \<open>p\<close> in the block with index \<open>bi\<close> (\<open>None\<close> when the
  block or the key is absent).
\<close>

definition bin_block :: "config \<Rightarrow> int \<Rightarrow> int" where
  "bin_block cfg b = int_quot b (snf_block_size cfg) * snf_block_size cfg"

definition cov_at :: "(int \<times> block) list \<Rightarrow> int \<Rightarrow> int \<Rightarrow> int option" where
  "cov_at blks bi p = (case map_of blks bi of None \<Rightarrow> None | Some blk \<Rightarrow> COVERAGE blk p)"

text \<open>
  The candidate lists a block had before the call: those of the block, or those of a
  fresh block when there was none.
\<close>

definition cands_before :: "string list \<Rightarrow> (int \<times> block) list \<Rightarrow> int \<Rightarrow> string \<rightharpoonup> svcand list" where
  "cands_before TYPES blks bi =
     (case map_of blks bi of None \<Rightarrow> cands (new_block TYPES) | Some blk \<Rightarrow> cands blk)"

text \<open>
  The range in which the exact quotients \<open>int_quot\<close> and \<open>ceil_quot\<close> are what Python's
  float division followed by \<^verbatim>\<open>int\<close> or \<^verbatim>\<open>math.ceil\<close> yields: the end position, every
  visited bin, and the sum of the magnitudes of the running coverage over all visited
  bins (which bounds every window sum) stay below \<open>2 ^ 53\<close>.
\<close>

definition float_exact :: "config \<Rightarrow> lead_provider \<Rightarrow> int list \<Rightarrow> bool" where
  "float_exact cfg lp bins \<longleftrightarrow>
     \<bar>lp_end lp\<bar> < 2 ^ 53 \<and> \<bar>coverage_binsize cfg\<bar> < 2 ^ 53 \<and> \<bar>snf_block_size cfg\<bar> < 2 ^ 53 \<and>
     list_all (\<lambda>b. \<bar>b\<bar> < 2 ^ 53) bins \<and>
     sum_list (map abs (depths lp 0 bins)) < 2 ^ 53"

text \<open>The bins the loop visits.\<close>

definition bins_of :: "config \<Rightarrow> lead_provider \<Rightarrow> int list" where
  "bins_of cfg lp = py_range (covrtab_min_bin lp)
     (int_quot (lp_end lp) (coverage_binsize cfg) * coverage_binsize cfg + coverage_binsize cfg)
     (coverage_binsize cfg)"

text \<open>
  The value the loop stores at a flush bin, as a function on the block list: nothing for
  a value that is not positive.
\<close>

definition emit :: "string list \<Rightarrow> config \<Rightarrow> int \<Rightarrow> int \<Rightarrow> (int \<times> block) list \<Rightarrow> (int \<times> block) list" where
  "emit T cfg b v blks = (if 0 < v then
      (let blk = (case map_of blks (bin_block cfg b) of None \<Rightarrow> new_block T | Some x \<Rightarrow> x)
       in AList.update (bin_block cfg b) (blk\<lparr>COVERAGE := (COVERAGE blk)(b \<mapsto> v)\<rparr>) blks) else blks)"

text \<open>
  The window value in the words of the specification: the tables hold the depth of each
  bin, a bin without entry counts 0, and the value is the ceiling of the sum over the
  window divided by the number of its bins.
\<close>

definition spec_window_value :: "lead_provider \<Rightarrow> int list \<Rightarrow> int" where
  "spec_window_value lp w = ceil_quot (sum_list (map (delta lp) w)) (int (length w))"

definition stored :: "config \<Rightarrow> svcand \<Rightarrow> svcand" where
  "stored cfg c = (if output_rnames cfg then c else c\<lparr>rnames := None\<rparr>)"

definition block_id :: "config \<Rightarrow> int \<Rightarrow> int" where
  "block_id cfg p = p div snf_block_size cfg * snf_block_size cfg"

definition grouped :: "string list \<Rightarrow> config \<Rightarrow> svcand list \<Rightarrow> int \<Rightarrow> block" where
  "grouped TYPES cfg cs b =
     \<lparr>cands = (\<lambda>t. if t \<in> set TYPES \<and> t \<noteq> ''_COVERAGE''
                    then Some (filter (\<lambda>c. block_id cfg (pos c) = b \<and> svtype c = t)
                                 (map (stored cfg) cs))
                    else None),
      COVERAGE = Map.empty\<rparr>"

definition block_ids :: "config \<Rightarrow> svcand list \<Rightarrow> int set" where
  "block_ids cfg cs = (\<lambda>c. block_id cfg (pos c)) ` set cs"

definition holds :: "string list \<Rightarrow> svcand list \<Rightarrow> snfile \<Rightarrow> bool" where
  "holds TYPES cs s \<longleftrightarrow>
     distinct (map fst (blocks s)) \<and>
     (\<forall>b. map_of (blocks s) b =
            (if b \<in> block_ids (config s) cs then Some (grouped TYPES (config s) cs b) else None))"

definition payload :: "lib \<Rightarrow> (int \<times> block) list \<Rightarrow> int \<Rightarrow> bytes" where
  "payload L blks b =
     (case map_of blks b of None \<Rightarrow> [] | Some blk \<Rightarrow> gzip_compress L (pickle_dumps L blk))"

definition offset_of :: "lib \<Rightarrow> (int \<times> block) list \<Rightarrow> int \<Rightarrow> int" where
  "offset_of L blks b =
     (\<Sum>b' \<in> {b' \<in> fst ` set blks. b' < b}. int (length (payload L blks b')))"

definition body_of :: "lib \<Rightarrow> (int \<times> block) list \<Rightarrow> bytes" where
  "body_of L blks = concat (map (payload L blks) (sort (map fst blks)))"

text \<open>The registry after the touch and the eviction in LazySNFile.read_header.\<close>

definition touch :: "nat \<Rightarrow> world \<Rightarrow> world" where
  "touch self w =
     (let w1 = (if self \<in> set (ACTIVE w)
                then w\<lparr>ACTIVE := removeAll self (ACTIVE w) @ [self]\<rparr>
                else w\<lparr>ACTIVE := ACTIVE w @ [self]\<rparr>)
      in if MAX_ACTIVE < length (ACTIVE w1)
         then (case ACTIVE w1 of
                 [] \<Rightarrow> w1
               | oldest_snf # rest \<Rightarrow> unload oldest_snf (w1\<lparr>ACTIVE := rest\<rparr>))
         else w1)"

definition same_dev :: "snfile \<Rightarrow> snfile \<Rightarrow> bool" where
  "same_dev s s' \<longleftrightarrow>
     s' = s\<lparr>handle := handle s'\<rparr> \<and>
     (case handle s of HFalse \<Rightarrow> handle s' = HFalse
      | HFile fn m p \<Rightarrow> (\<exists>p'. handle s' = HFile fn m p'))"

section \<open>Concrete inputs\<close>

definition lp0 :: lead_provider where
  "lp0 = \<lparr>covrtab_min_bin = 0, lp_end = 500, covrtab_fwd = [0 \<mapsto> 5], covrtab_rev = Map.empty\<rparr>"

definition cfg0 :: config where
  "cfg0 = \<lparr>snf_block_size = 1000, coverage_binsize = 100, coverage_binsize_combine = 500,
           output_rnames = True, combine_close_handles = False\<rparr>"

definition s0 :: snfile where "s0 = init False cfg0 HFalse None"

section \<open>The coverage annotator\<close>

lemma annotate_loop_count:
  "0 \<le> n \<Longrightarrow> fst (annotate_loop T cfg lp bs (cf, cr, cs, n) blks) \<noteq> Inl (ZeroDivisionError 85)"
  by (induction bs arbitrary: cf cr cs n blks) (auto simp: Let_def)

lemma annotate_fst:
  "coverage_binsize (config self) \<noteq> 0 \<Longrightarrow>
   fst (annotate_block_coverages T lp res self) =
   fst (annotate_loop T (config self) lp
          (py_range (covrtab_min_bin lp)
             (int_quot (lp_end lp) (coverage_binsize (config self)) * coverage_binsize (config self)
                + coverage_binsize (config self))
             (coverage_binsize (config self)))
          (0, 0, 0, 0) (blocks self))"
  by (simp add: annotate_block_coverages_def Let_def split: prod.splits)

text \<open>
  Claim C10. In \<^verbatim>\<open>annotate_block_coverages\<close>, \<^verbatim>\<open>bin_count\<close> is at least 1 whenever
  \<^verbatim>\<open>math.ceil(coverage_sum / float(bin_count))\<close> is computed: for every depth source,
  resolution and object, the call never raises the division by zero of line 85.
\<close>

theorem annotate_block_coverages_bin_count_positive:
  "fst (annotate_block_coverages T lp res self) \<noteq> Inl (ZeroDivisionError 85)"
proof (cases "coverage_binsize (config self) = 0")
  case True
  then show ?thesis by (simp add: annotate_block_coverages_def)
next
  case False
  show ?thesis unfolding annotate_fst[OF False]
    by (rule annotate_loop_count) simp
qed

lemma depths_append: "depths lp d (xs @ ys) = depths lp d xs @ depths lp (d + depth_after lp xs) ys"
  by (induction xs arbitrary: d) (simp_all add: depth_after_def add.assoc)

lemma annotate_loop_skip:
  assumes "\<forall>x\<in>set w. x mod coverage_binsize_combine cfg \<noteq> 0" "coverage_binsize_combine cfg \<noteq> 0"
  shows "annotate_loop T cfg lp (w @ rest) (cf, cr, cs, n) blks =
      annotate_loop T cfg lp rest 
        (cf + sum_list (map (fwd_delta lp) w), cr + sum_list (map (rev_delta lp) w),
         cs + sum_list (depths lp (cf + cr) w), n + int (length w)) blks"
  using assms
proof (induction w arbitrary: cf cr cs n)
  case Nil
  then show ?case by simp
next
  case (Cons a w)
  have a: "a mod coverage_binsize_combine cfg \<noteq> 0" using Cons.prems by simp
  have step: "annotate_loop T cfg lp ((a # w) @ rest) (cf, cr, cs, n) blks =
     annotate_loop T cfg lp (w @ rest) (cf + fwd_delta lp a, cr + rev_delta lp a,
        cs + (cf + fwd_delta lp a + (cr + rev_delta lp a)), n + 1) blks"
    using a Cons.prems(2)
    by (simp add: Let_def fwd_delta_def rev_delta_def split: option.splits)
  show ?case unfolding step
    using Cons.prems by (subst Cons.IH) (simp_all add: delta_def algebra_simps)
qed

lemma map_of_emit:
  "map_of (emit T cfg b v blks) bi =
     (if 0 < v \<and> bi = bin_block cfg b
      then Some ((case map_of blks bi of None \<Rightarrow> new_block T | Some x \<Rightarrow> x)
                  \<lparr>COVERAGE := (COVERAGE (case map_of blks bi of None \<Rightarrow> new_block T | Some x \<Rightarrow> x))(b \<mapsto> v)\<rparr>)
      else map_of blks bi)"
  by (simp add: emit_def Let_def update_conv')

lemma cov_at_emit:
  "cov_at (emit T cfg b v blks) bi p =
     (if p = b \<and> bi = bin_block cfg b \<and> 0 < v then Some v else cov_at blks bi p)"
  by (auto simp: cov_at_def map_of_emit new_block_def split: option.splits)

lemma cands_emit:
  "(case map_of (emit T cfg b v blks) bi of
      None \<Rightarrow> map_of blks bi = None
    | Some blk' \<Rightarrow> cands blk' = cands_before T blks bi)"
  by (auto simp: map_of_emit cands_before_def split: option.splits)

lemma annotate_loop_flush:
  assumes "b mod coverage_binsize_combine cfg = 0" "coverage_binsize_combine cfg \<noteq> 0"
     "annotate_loop T cfg lp (b # rest) (cf, cr, cs, n) blks = (Inr (), blks')"
  shows "annotate_loop T cfg lp rest (cf + fwd_delta lp b, cr + rev_delta lp b, 0, 0)
           (emit T cfg b (ceil_quot (cs + (cf + cr + delta lp b)) (n + 1)) blks) = (Inr (), blks')"
  using assms
  by (auto simp: Let_def fwd_delta_def rev_delta_def delta_def emit_def bin_block_def algebra_simps update_conv'
           split: option.splits if_splits)

lemma annotate_loop_step:
  assumes "annotate_loop T cfg lp (b # rest) (cf, cr, cs, n) blks = (Inr (), blks')"
  shows "\<exists>cs' n' blks1.
           annotate_loop T cfg lp rest (cf + fwd_delta lp b, cr + rev_delta lp b, cs', n') blks1
             = (Inr (), blks')
         \<and> (blks1 = blks \<and> b mod coverage_binsize_combine cfg \<noteq> 0
            \<or> (\<exists>v. blks1 = emit T cfg b v blks) \<and> b mod coverage_binsize_combine cfg = 0)"
proof -
  have R: "coverage_binsize_combine cfg \<noteq> 0" using assms by (auto simp: Let_def)
  show ?thesis
  proof (cases "b mod coverage_binsize_combine cfg = 0")
    case True
    from annotate_loop_flush[OF True R assms] show ?thesis using True
      by (intro exI[of _ 0] exI[of _ "emit T cfg b (ceil_quot (cs + (cf + cr + delta lp b)) (n + 1)) blks"]) auto
  next
    case False
    from annotate_loop_skip[of "[b]" cfg T lp rest cf cr cs n blks] False R assms
    have "annotate_loop T cfg lp rest
        (cf + fwd_delta lp b, cr + rev_delta lp b,
         cs + (cf + cr + delta lp b), n + 1) blks = (Inr (), blks')" by simp
    then show ?thesis using False
      by (intro exI[of _ "cs + (cf + cr + delta lp b)"] exI[of _ "n + 1"] exI[of _ blks]) auto
  qed
qed

lemma annotate_loop_frame:
  assumes "annotate_loop T cfg lp bs acc blks = (Inr (), blks')"
    "\<not> (p \<in> set bs \<and> p mod coverage_binsize_combine cfg = 0 \<and> bi = bin_block cfg p)"
  shows "cov_at blks' bi p = cov_at blks bi p"
  using assms
proof (induction bs arbitrary: acc blks)
  case Nil
  then show ?case by simp
next
  case (Cons b bs)
  obtain cf cr cs n where acc: "acc = (cf, cr, cs, n)" by (cases acc) auto
  from annotate_loop_step[OF Cons.prems(1)[unfolded acc]]
  obtain cs' n' blks1 where
    run: "annotate_loop T cfg lp bs (cf + fwd_delta lp b, cr + rev_delta lp b, cs', n') blks1 = (Inr (), blks')"
    and b1: "blks1 = blks \<and> b mod coverage_binsize_combine cfg \<noteq> 0
            \<or> (\<exists>v. blks1 = emit T cfg b v blks) \<and> b mod coverage_binsize_combine cfg = 0"
    by (elim exE conjE) (rule that)
  have "\<not> (p \<in> set bs \<and> p mod coverage_binsize_combine cfg = 0 \<and> bi = bin_block cfg p)"
    using Cons.prems(2) by auto
  from Cons.IH[OF run this] have e: "cov_at blks' bi p = cov_at blks1 bi p" .
  have "cov_at blks1 bi p = cov_at blks bi p"
    using b1 Cons.prems(2) by (auto simp: cov_at_emit)
  then show ?case using e by simp
qed

lemma annotate_loop_cands:
  assumes "annotate_loop T cfg lp bs acc blks = (Inr (), blks')"
    and "\<forall>bi. (case map_of blks bi of None \<Rightarrow> map_of blks0 bi = None
              | Some blk' \<Rightarrow> cands blk' = cands_before T blks0 bi)"
  shows "\<forall>bi. (case map_of blks' bi of None \<Rightarrow> map_of blks0 bi = None
              | Some blk' \<Rightarrow> cands blk' = cands_before T blks0 bi)"
  using assms
proof (induction bs arbitrary: acc blks)
  case Nil
  then show ?case by simp
next
  case (Cons b bs)
  obtain cf cr cs n where acc: "acc = (cf, cr, cs, n)" by (cases acc) auto
  from annotate_loop_step[OF Cons.prems(1)[unfolded acc]]
  obtain cs' n' blks1 where
    run: "annotate_loop T cfg lp bs (cf + fwd_delta lp b, cr + rev_delta lp b, cs', n') blks1 = (Inr (), blks')"
    and b1: "blks1 = blks \<and> b mod coverage_binsize_combine cfg \<noteq> 0
            \<or> (\<exists>v. blks1 = emit T cfg b v blks) \<and> b mod coverage_binsize_combine cfg = 0"
    by (elim exE conjE) (rule that)
  have "\<forall>bi. (case map_of blks1 bi of None \<Rightarrow> map_of blks0 bi = None
              | Some blk' \<Rightarrow> cands blk' = cands_before T blks0 bi)"
  proof
    fix bi
    show "case map_of blks1 bi of None \<Rightarrow> map_of blks0 bi = None
              | Some blk' \<Rightarrow> cands blk' = cands_before T blks0 bi"
      using b1 Cons.prems(2)[rule_format, of bi]
      by (auto simp: map_of_emit cands_before_def split: option.splits if_splits)
  qed
  from Cons.IH[OF run this] show ?case .
qed

lemma annotate_loop_total:
  assumes "coverage_binsize_combine cfg \<noteq> 0" "snf_block_size cfg \<noteq> 0" "0 \<le> n"
  shows "\<exists>blks'. annotate_loop T cfg lp bs (cf, cr, cs, n) blks = (Inr (), blks')"
  using assms
proof (induction bs arbitrary: cf cr cs n blks)
  case Nil
  then show ?case by simp
next
  case (Cons b bs)
  have n: "n + 1 \<noteq> 0" "0 \<le> n + 1" using Cons.prems(3) by simp_all
  show ?case
    using Cons.prems(1,2) n Cons.IH[OF Cons.prems(1,2)]
    by (simp add: Let_def)
qed


lemma annotate_loop_prefix:
  assumes "annotate_loop T cfg lp (pre @ rest) (cf, cr, cs, n) blks = (Inr (), blks')"
    "pre \<noteq> []" "last pre mod coverage_binsize_combine cfg = 0"
  shows "\<exists>blks1. annotate_loop T cfg lp rest
            (cf + sum_list (map (fwd_delta lp) pre), cr + sum_list (map (rev_delta lp) pre), 0, 0) blks1
            = (Inr (), blks') \<and>
          (\<forall>bi p. p \<notin> set pre \<longrightarrow> cov_at blks1 bi p = cov_at blks bi p)"
  using assms
proof (induction pre arbitrary: cf cr cs n blks)
  case Nil
  then show ?case by simp
next
  case (Cons b pre)
  have R: "coverage_binsize_combine cfg \<noteq> 0" using Cons.prems(1) by (auto simp: Let_def)
  show ?case
  proof (cases "b mod coverage_binsize_combine cfg = 0")
    case True
    let ?blks = "emit T cfg b (ceil_quot (cs + (cf + cr + delta lp b)) (n + 1)) blks"
    have step: "annotate_loop T cfg lp (pre @ rest) (cf + fwd_delta lp b, cr + rev_delta lp b, 0, 0) ?blks
         = (Inr (), blks')"
      using annotate_loop_flush[OF True R, of T lp "pre @ rest" cf cr cs n blks blks'] Cons.prems(1) by simp
    show ?thesis
    proof (cases "pre = []")
      case True
      then show ?thesis using step by (auto simp: cov_at_emit intro!: exI[of _ ?blks])
    next
      case False
      with Cons.prems(3) have "last pre mod coverage_binsize_combine cfg = 0" by simp
      from Cons.IH[OF step False this] obtain blks1 where
        "annotate_loop T cfg lp rest
           (cf + fwd_delta lp b + sum_list (map (fwd_delta lp) pre),
            cr + rev_delta lp b + sum_list (map (rev_delta lp) pre), 0, 0) blks1 = (Inr (), blks')"
        "\<forall>bi p. p \<notin> set pre \<longrightarrow> cov_at blks1 bi p = cov_at ?blks bi p" by (elim exE conjE) (rule that)
      then show ?thesis by (auto simp: cov_at_emit add.assoc intro!: exI[of _ blks1])
    qed
  next
    case False
    hence ne: "pre \<noteq> []" using Cons.prems(3) by auto
    hence l: "last pre mod coverage_binsize_combine cfg = 0" using Cons.prems(3) by simp
    from annotate_loop_skip[of "[b]" cfg T lp "pre @ rest" cf cr cs n blks] False R Cons.prems(1)
    have step: "annotate_loop T cfg lp (pre @ rest)
        (cf + fwd_delta lp b, cr + rev_delta lp b,
         cs + (cf + cr + delta lp b), n + 1) blks = (Inr (), blks')" by simp
    from Cons.IH[OF step ne l] show ?thesis by (auto simp: add.assoc)
  qed
qed

lemma distinct_py_range: "step \<noteq> 0 \<Longrightarrow> distinct (py_range start stop step)"
  by (auto simp: py_range_def distinct_map intro!: inj_onI)

lemma sum_deltas: "sum_list (map (fwd_delta lp) xs) + sum_list (map (rev_delta lp) xs) = depth_after lp xs"
  by (induction xs) (simp_all add: depth_after_def delta_def)

lemma annotate_loop_window:
  assumes run: "annotate_loop T cfg lp (pre @ w @ post) (0, 0, 0, 0) blks = (Inr (), blks')"
    and dist: "distinct (pre @ w @ post)"
    and w: "w \<noteq> []" "last w mod coverage_binsize_combine cfg = 0"
       "\<forall>x\<in>set (butlast w). x mod coverage_binsize_combine cfg \<noteq> 0"
    and pre: "pre = [] \<or> last pre mod coverage_binsize_combine cfg = 0"
  shows "cov_at blks' (bin_block cfg (last w)) (last w) =
     (let v = ceil_quot (sum_list (depths lp (depth_after lp pre) w)) (int (length w))
      in if 0 < v then Some v else cov_at blks (bin_block cfg (last w)) (last w))"
proof -
  obtain w0 b where wb: "w = w0 @ [b]" using w(1) by (metis append_butlast_last_id)
  have R: "coverage_binsize_combine cfg \<noteq> 0"
    using run wb by (cases pre; cases w0) (auto simp: Let_def)
  let ?cf = "sum_list (map (fwd_delta lp) pre)" and ?cr = "sum_list (map (rev_delta lp) pre)"
  obtain blks1 where b1: "annotate_loop T cfg lp (w @ post) (?cf, ?cr, 0, 0) blks1 = (Inr (), blks')"
     and f1: "\<forall>bi p. p \<notin> set pre \<longrightarrow> cov_at blks1 bi p = cov_at blks bi p"
  proof (cases "pre = []")
    case True
    then show ?thesis using run that[of blks] by simp
  next
    case False
    with pre have "last pre mod coverage_binsize_combine cfg = 0" by simp
    from annotate_loop_prefix[OF run False this] show ?thesis using that by auto
  qed
  have skip: "annotate_loop T cfg lp (b # post)
        (?cf + sum_list (map (fwd_delta lp) w0), ?cr + sum_list (map (rev_delta lp) w0),
         sum_list (depths lp (?cf + ?cr) w0), int (length w0)) blks1 = (Inr (), blks')"
    using annotate_loop_skip[of w0 cfg T lp "b # post" ?cf ?cr 0 0 blks1] w(3) R b1 wb by simp
  let ?v = "ceil_quot (sum_list (depths lp (?cf + ?cr) w0) +
       (?cf + sum_list (map (fwd_delta lp) w0) + (?cr + sum_list (map (rev_delta lp) w0)) + delta lp b))
       (int (length w0) + 1)"
  have bflush: "b mod coverage_binsize_combine cfg = 0" using w(2) wb by simp
  from annotate_loop_flush[OF bflush R skip]
  have fl: "annotate_loop T cfg lp post
     (?cf + sum_list (map (fwd_delta lp) w0) + fwd_delta lp b,
      ?cr + sum_list (map (rev_delta lp) w0) + rev_delta lp b, 0, 0)
     (emit T cfg b ?v blks1) = (Inr (), blks')" .
  have "b \<notin> set post" "b \<notin> set pre" using dist wb by auto
  hence e: "cov_at blks' (bin_block cfg b) b = (if 0 < ?v then Some ?v else cov_at blks (bin_block cfg b) b)"
    using annotate_loop_frame[OF fl, of b "bin_block cfg b"] f1 by (simp add: cov_at_emit)
  have v: "?v = ceil_quot (sum_list (depths lp (depth_after lp pre) w)) (int (length w))"
    using sum_deltas[of lp pre] sum_deltas[of lp w0]
    by (simp add: wb depths_append algebra_simps)
  show ?thesis using e unfolding v by (simp add: wb Let_def)
qed

lemma bins0: "bins_of cfg0 lp0 = [0, 100, 200, 300, 400, 500]"
  by (simp add: bins_of_def cfg0_def lp0_def py_range_def int_quot_def upt_conv_Cons)

lemma range0: "py_range 0 600 100 = [0, 100, 200, 300, 400, 500]"
  by (simp add: py_range_def upt_conv_Cons)

lemma run0: "annotate_block_coverages [''INS''] lp0 500 s0 =
   (Inr (), s0\<lparr>blocks := [(0, (new_block [''INS''])\<lparr>COVERAGE := [0 \<mapsto> 5, 500 \<mapsto> 5]\<rparr>)]\<rparr>)"
  by (simp add: annotate_block_coverages_def range0 cfg0_def lp0_def s0_def int_quot_def init_def Let_def ceil_quot_def new_block_def)

text \<open>
  Claim C1, as the code has it. Let the block size, the bin size and the combine
  resolution \<open>R\<close> (the configured \<^verbatim>\<open>coverage_binsize_combine\<close>) be non-zero, and let the end
  position, the visited bins and the sum of the magnitudes of the running coverage stay
  below \<open>2 ^ 53\<close>, where Python's float divisions are exact. Then the call returns, changing
  only \<^verbatim>\<open>self.blocks\<close>, and:
  \<^item> for every split \<open>pre @ w @ post\<close> of the visited bins in which the window \<open>w\<close> ends in
    a bin divisible by \<open>R\<close>, holds no other such bin, and follows either nothing or a bin
    divisible by \<open>R\<close>, the entry under the last bin of \<open>w\<close>, in the block of that bin, is
    the ceiling of (the sum over the bins of \<open>w\<close> of the running forward+reverse coverage,
    that is of all table entries from the first visited bin up to that bin) divided by
    the number of bins of \<open>w\<close>, if that value is positive, and is what it was before
    otherwise;
  \<^item> every other coverage entry, under every key of every block, is what it was before:
    entries are written only under visited bins divisible by \<open>R\<close>, each in the block of
    its bin;
  \<^item> every block that existed keeps its candidate lists, and a block exists afterwards
    only if it existed before or was created, with empty candidate lists, by the call.
\<close>

theorem annotate_block_coverages_windows:
  assumes nz: "coverage_binsize (config self) \<noteq> 0" "coverage_binsize_combine (config self) \<noteq> 0"
      "snf_block_size (config self) \<noteq> 0"
    and fl: "float_exact (config self) lp (bins_of (config self) lp)"
  shows "\<exists>blks'.
     annotate_block_coverages T lp resolution self = (Inr (), self\<lparr>blocks := blks'\<rparr>)
     \<and> (\<forall>pre w post.
           bins_of (config self) lp = pre @ w @ post \<and> w \<noteq> []
           \<and> last w mod coverage_binsize_combine (config self) = 0
           \<and> (\<forall>x\<in>set (butlast w). x mod coverage_binsize_combine (config self) \<noteq> 0)
           \<and> (pre = [] \<or> last pre mod coverage_binsize_combine (config self) = 0)
           \<longrightarrow> cov_at blks' (bin_block (config self) (last w)) (last w) =
                 (let v = ceil_quot (sum_list (depths lp (depth_after lp pre) w)) (int (length w))
                  in if 0 < v then Some v
                     else cov_at (blocks self) (bin_block (config self) (last w)) (last w)))
     \<and> (\<forall>bi p. \<not> (p \<in> set (bins_of (config self) lp)
                     \<and> p mod coverage_binsize_combine (config self) = 0
                     \<and> bi = bin_block (config self) p)
             \<longrightarrow> cov_at blks' bi p = cov_at (blocks self) bi p)
     \<and> (\<forall>bi. case map_of blks' bi of
                None \<Rightarrow> map_of (blocks self) bi = None
              | Some blk' \<Rightarrow> cands blk' = cands_before T (blocks self) bi)"
proof -
  let ?cfg = "config self"
  have "\<exists>blks'. annotate_loop T ?cfg lp (bins_of ?cfg lp) (0, 0, 0, 0) (blocks self) = (Inr (), blks')"
    by (rule annotate_loop_total[OF nz(2,3)]) simp
  then obtain blks' where run:
    "annotate_loop T ?cfg lp (bins_of ?cfg lp) (0, 0, 0, 0) (blocks self) = (Inr (), blks')"
    by (elim exE)
  have res: "annotate_block_coverages T lp resolution self = (Inr (), self\<lparr>blocks := blks'\<rparr>)"
    using nz(1) run by (simp add: annotate_block_coverages_def bins_of_def Let_def)
  have d: "distinct (bins_of ?cfg lp)"
    unfolding bins_of_def by (rule distinct_py_range[OF nz(1)])
  have 1: "cov_at blks' (bin_block ?cfg (last w)) (last w) =
           (let v = ceil_quot (sum_list (depths lp (depth_after lp pre) w)) (int (length w))
            in if 0 < v then Some v else cov_at (blocks self) (bin_block ?cfg (last w)) (last w))"
    if "bins_of ?cfg lp = pre @ w @ post" "w \<noteq> []" "last w mod coverage_binsize_combine ?cfg = 0"
       "\<forall>x\<in>set (butlast w). x mod coverage_binsize_combine ?cfg \<noteq> 0"
       "pre = [] \<or> last pre mod coverage_binsize_combine ?cfg = 0" for pre w post
    by (rule annotate_loop_window[OF run[unfolded that(1)] d[unfolded that(1)] that(2,3,4,5)])
  have 2: "cov_at blks' bi p = cov_at (blocks self) bi p"
    if "\<not> (p \<in> set (bins_of ?cfg lp) \<and> p mod coverage_binsize_combine ?cfg = 0 \<and> bi = bin_block ?cfg p)" for bi p
    by (rule annotate_loop_frame[OF run that])
  have 3: "\<forall>bi. case map_of blks' bi of
                None \<Rightarrow> map_of (blocks self) bi = None
              | Some blk' \<Rightarrow> cands blk' = cands_before T (blocks self) bi"
    by (rule annotate_loop_cands[OF run]) (simp add: cands_before_def split: option.splits)
  show ?thesis
  proof (intro exI[of _ blks'] conjI allI impI)
    show "annotate_block_coverages T lp resolution self = (Inr (), self\<lparr>blocks := blks'\<rparr>)"
      by (rule res)
  next
    fix pre w post
    assume "bins_of ?cfg lp = pre @ w @ post \<and> w \<noteq> []
           \<and> last w mod coverage_binsize_combine ?cfg = 0
           \<and> (\<forall>x\<in>set (butlast w). x mod coverage_binsize_combine ?cfg \<noteq> 0)
           \<and> (pre = [] \<or> last pre mod coverage_binsize_combine ?cfg = 0)"
    then show "cov_at blks' (bin_block ?cfg (last w)) (last w) =
                 (let v = ceil_quot (sum_list (depths lp (depth_after lp pre) w)) (int (length w))
                  in if 0 < v then Some v
                     else cov_at (blocks self) (bin_block ?cfg (last w)) (last w))"
      by (elim conjE) (rule 1)
  next
    fix bi p
    assume "\<not> (p \<in> set (bins_of ?cfg lp) \<and> p mod coverage_binsize_combine ?cfg = 0
               \<and> bi = bin_block ?cfg p)"
    then show "cov_at blks' bi p = cov_at (blocks self) bi p" by (rule 2)
  next
    fix bi
    show "case map_of blks' bi of
                None \<Rightarrow> map_of (blocks self) bi = None
              | Some blk' \<Rightarrow> cands blk' = cands_before T (blocks self) bi"
      using 3 by (rule spec)
  qed
qed


lemma exact0: "float_exact (config s0) lp0 (bins_of (config s0) lp0)"
proof -
  have c: "config s0 = cfg0" by (simp add: s0_def init_def)
  have d: "delta lp0 b = (if b = 0 then 5 else 0)" for b
    by (simp add: delta_def fwd_delta_def rev_delta_def lp0_def)
  show ?thesis
    unfolding c bins0 float_exact_def
    by (simp add: d) (simp add: lp0_def cfg0_def)
qed

theorem annotate_block_coverages_windows_witness:
  "coverage_binsize (config s0) \<noteq> 0 \<and> coverage_binsize_combine (config s0) \<noteq> 0
   \<and> snf_block_size (config s0) \<noteq> 0
   \<and> float_exact (config s0) lp0 (bins_of (config s0) lp0)
   \<and> bins_of (config s0) lp0 = [0] @ [100, 200, 300, 400, 500] @ []
   \<and> (\<exists>blks'. annotate_block_coverages [''INS''] lp0 500 s0 = (Inr (), s0\<lparr>blocks := blks'\<rparr>)
        \<and> cov_at blks' 0 500 = Some 5 \<and> cov_at blks' 0 100 = None \<and> cov_at blks' 0 1001 = None)"
proof -
  have c: "config s0 = cfg0" by (simp add: s0_def init_def)
  have nz: "coverage_binsize (config s0) \<noteq> 0" "coverage_binsize_combine (config s0) \<noteq> 0"
      "snf_block_size (config s0) \<noteq> 0"
    by (simp_all add: c cfg0_def)
  have b: "bins_of (config s0) lp0 = [0] @ [100, 200, 300, 400, 500] @ []"
    by (simp add: c bins0)
  have e: "cov_at (blocks s0) bi p = None" for bi p by (simp add: cov_at_def s0_def init_def)
  have R: "coverage_binsize_combine (config s0) = 500" by (simp add: c cfg0_def)
  have bb: "bin_block (config s0) 500 = 0" by (simp add: c cfg0_def bin_block_def int_quot_def)
  have d: "delta lp0 x = (if x = 0 then 5 else 0)" for x
    by (simp add: delta_def fwd_delta_def rev_delta_def lp0_def)
  from annotate_block_coverages_windows[OF nz exact0, of "[''INS'']" 500]
  obtain blks' where
    run: "annotate_block_coverages [''INS''] lp0 500 s0 = (Inr (), s0\<lparr>blocks := blks'\<rparr>)"
    and win: "\<forall>pre w post.
           bins_of (config s0) lp0 = pre @ w @ post \<and> w \<noteq> []
           \<and> last w mod coverage_binsize_combine (config s0) = 0
           \<and> (\<forall>x\<in>set (butlast w). x mod coverage_binsize_combine (config s0) \<noteq> 0)
           \<and> (pre = [] \<or> last pre mod coverage_binsize_combine (config s0) = 0)
           \<longrightarrow> cov_at blks' (bin_block (config s0) (last w)) (last w) =
                 (let v = ceil_quot (sum_list (depths lp0 (depth_after lp0 pre) w)) (int (length w))
                  in if 0 < v then Some v
                     else cov_at (blocks s0) (bin_block (config s0) (last w)) (last w))"
    and fr: "\<forall>bi p. \<not> (p \<in> set (bins_of (config s0) lp0)
                     \<and> p mod coverage_binsize_combine (config s0) = 0
                     \<and> bi = bin_block (config s0) p)
             \<longrightarrow> cov_at blks' bi p = cov_at (blocks s0) bi p"
    by (elim exE conjE) (rule that)
  have "cov_at blks' (bin_block (config s0) (last [100, 200, 300, 400, 500])) (last [100, 200, 300, 400, 500]) =
                 (let v = ceil_quot (sum_list (depths lp0 (depth_after lp0 [0]) [100, 200, 300, 400, 500]))
                            (int (length [100, 200, 300, 400, 500::int]))
                  in if 0 < v then Some v
                     else cov_at (blocks s0) (bin_block (config s0) (last [100, 200, 300, 400, 500]))
                            (last [100, 200, 300, 400, 500]))"
    by (rule win[rule_format, of "[0]" "[100, 200, 300, 400, 500]" "[]"]) (simp add: b R)
  then have w500: "cov_at blks' 0 500 = Some 5"
    by (simp add: bb depth_after_def d ceil_quot_def)
  have w100: "cov_at blks' 0 100 = None"
    using fr[rule_format, of 100 0] by (simp add: R e)
  have w1001: "cov_at blks' 0 1001 = None"
    using fr[rule_format, of 1001 0] by (simp add: R e)
  show ?thesis
    using nz exact0 b run w500 w100 w1001 by blast
qed

lemma run0_entry:
  "cov_at (blocks (snd (annotate_block_coverages [''INS''] lp0 500 s0))) (bin_block cfg0 500) 500 = Some 5"
  unfolding run0 by (simp add: cov_at_def bin_block_def cfg0_def int_quot_def new_block_def)

text \<open>
  Read as the specification words it (the tables give each bin's depth), claim C1 fails:
  with a single forward entry 5 at bin 0, bins of size 100 up to 500 and resolution 500,
  the window 100..500 has table sum 0, yet the code stores 5 at bin 500.
\<close>

theorem annotate_block_coverages_spec_counterexample:
  "cov_at (blocks (snd (annotate_block_coverages [''INS''] lp0 500 s0))) (bin_block cfg0 500) 500 = Some 5
   \<and> spec_window_value lp0 [100, 200, 300, 400, 500] = 0"
  by (simp add: run0_entry)
     (simp add: lp0_def ceil_quot_def spec_window_value_def delta_def fwd_delta_def rev_delta_def)

lemma int_quot_nonneg: "0 \<le> a \<Longrightarrow> 0 < b \<Longrightarrow> int_quot a b = a div b"
  by (cases "a = 0") (simp_all add: int_quot_def)

lemma pos_stored [simp]: "pos (stored cfg c) = pos c" "svtype (stored cfg c) = svtype c"
  by (simp_all add: stored_def)

lemma store_step:
  assumes h: "holds TYPES cs s" and bs: "0 < snf_block_size (config s)"
    and c: "0 \<le> pos c" "svtype c \<in> set TYPES" "svtype c \<noteq> ''_COVERAGE''"
  shows "\<exists>blks. store TYPES c s = (Inr (), s\<lparr>blocks := blks\<rparr>) \<and> holds TYPES (cs @ [c]) (s\<lparr>blocks := blks\<rparr>)"
proof -
  let ?cfg = "config s"
  let ?bi = "block_id ?cfg (pos c)"
  let ?blks = "(case map_of (blocks s) ?bi of
                      None \<Rightarrow> AList.update ?bi (new_block TYPES) (blocks s)
                    | Some _ \<Rightarrow> blocks s)"
  let ?blk = "if ?bi \<in> block_ids ?cfg cs then grouped TYPES ?cfg cs ?bi else new_block TYPES"
  have q: "int_quot (pos c) (snf_block_size ?cfg) * snf_block_size ?cfg = ?bi"
    using int_quot_nonneg[OF c(1) bs] by (simp add: block_id_def)
  have m: "map_of (blocks s) b = (if b \<in> block_ids ?cfg cs then Some (grouped TYPES ?cfg cs b) else None)" for b
    using h by (simp add: holds_def)
  have d: "distinct (map fst (blocks s))" using h by (simp add: holds_def)
  have mb: "map_of ?blks ?bi = Some ?blk"
    by (simp add: m update_conv')
  have mo: "map_of ?blks b = map_of (blocks s) b" if "b \<noteq> ?bi" for b
    using that by (simp add: m update_conv')
  have dd: "distinct (map fst ?blks)" using d by (simp add: distinct_update split: option.splits)
  have emp: "filter (\<lambda>x. block_id ?cfg (pos x) = ?bi \<and> svtype x = t) (map (stored ?cfg) cs) = []"
    if "?bi \<notin> block_ids ?cfg cs" for t
    using that by (force simp: block_ids_def filter_empty_conv image_iff)
  have cl: "cands ?blk (svtype c) = Some (filter (\<lambda>x. block_id ?cfg (pos x) = ?bi
                                             \<and> svtype x = svtype c) (map (stored ?cfg) cs))"
  proof (cases "?bi \<in> block_ids ?cfg cs")
    case True
    then show ?thesis using c(2,3) by (simp add: grouped_def)
  next
    case False
    then show ?thesis using c(2,3) emp[OF False, of "svtype c"] by (simp add: new_block_def)
  qed
  let ?new = "?blk\<lparr>cands := (cands ?blk)(svtype c \<mapsto>
       filter (\<lambda>x. block_id ?cfg (pos x) = ?bi
                                             \<and> svtype x = svtype c) (map (stored ?cfg) cs) @ [stored ?cfg c])\<rparr>"
  let ?res = "AList.update ?bi ?new ?blks"
  have st: "store TYPES c s = (Inr (), s\<lparr>blocks := ?res\<rparr>)"
    using bs c(3) mb cl unfolding store_def q Let_def
    by (simp add: stored_def)
  have new: "?new = grouped TYPES ?cfg (cs @ [c]) ?bi"
  proof (cases "?bi \<in> block_ids ?cfg cs")
    case True
    then show ?thesis using c(2,3) by (auto simp: grouped_def fun_eq_iff)
  next
    case False
    note e = emp[OF False]
    show ?thesis using False e c(2,3) by (auto simp: grouped_def new_block_def fun_eq_iff)
  qed
  have oth: "grouped TYPES ?cfg (cs @ [c]) b = grouped TYPES ?cfg cs b" if "b \<noteq> ?bi" for b
    using that by (auto simp: grouped_def fun_eq_iff)
  have ids: "block_ids ?cfg (cs @ [c]) = insert ?bi (block_ids ?cfg cs)"
    by (auto simp: block_ids_def)
  have "holds TYPES (cs @ [c]) (s\<lparr>blocks := ?res\<rparr>)"
    unfolding holds_def
  proof (intro conjI allI)
    show "distinct (map fst (blocks (s\<lparr>blocks := ?res\<rparr>)))" using dd by (simp add: distinct_update)
    fix b
    show "map_of (blocks (s\<lparr>blocks := ?res\<rparr>)) b =
         (if b \<in> block_ids (config (s\<lparr>blocks := ?res\<rparr>)) (cs @ [c])
          then Some (grouped TYPES (config (s\<lparr>blocks := ?res\<rparr>)) (cs @ [c]) b) else None)"
    proof (cases "b = ?bi")
      case True
      then show ?thesis using new by (simp add: update_conv' ids)
    next
      case False
      then show ?thesis using mo[OF False] m[of b] oth[OF False] by (simp add: update_conv' ids)
    qed
  qed
  with st show ?thesis by blast
qed

lemma store_all_holds:
  assumes "holds TYPES done s" "0 < snf_block_size (config s)"
    "\<forall>c\<in>set cs. 0 \<le> pos c \<and> svtype c \<in> set TYPES \<and> svtype c \<noteq> ''_COVERAGE''"
  shows "\<exists>blks. store_all TYPES cs s = (Inr (), s\<lparr>blocks := blks\<rparr>) \<and> holds TYPES (done @ cs) (s\<lparr>blocks := blks\<rparr>)"
  using assms
proof (induction cs arbitrary: s "done")
  case Nil
  have "s\<lparr>blocks := blocks s\<rparr> = s" by simp
  then show ?case using Nil.prems(1) by (intro exI[of _ "blocks s"]) simp
next
  case (Cons c cs)
  from store_step[OF Cons.prems(1,2), of c] Cons.prems(3)
  obtain blks where s1: "store TYPES c s = (Inr (), s\<lparr>blocks := blks\<rparr>)"
    and h1: "holds TYPES (done @ [c]) (s\<lparr>blocks := blks\<rparr>)" by auto
  from Cons.IH[OF h1] Cons.prems(2,3)
  obtain blks' where "store_all TYPES cs (s\<lparr>blocks := blks\<rparr>) = (Inr (), s\<lparr>blocks := blks\<rparr>\<lparr>blocks := blks'\<rparr>)"
    "holds TYPES ((done @ [c]) @ cs) (s\<lparr>blocks := blks\<rparr>\<lparr>blocks := blks'\<rparr>)" by auto
  then show ?case using s1 by (intro exI[of _ blks']) simp
qed

lemma holds_init: "holds TYPES [] (init lz cfg h fname)"
  by (simp add: holds_def init_def block_ids_def)

lemma write_at_write_at:
  "write_at (write_at c p d1) (p + length d1) d2 = write_at c p (d1 @ d2)"
  by (auto simp: write_at_def min_def ac_simps)

lemma write_at_slice:
  "take (length d) (drop (p + length A) (write_at c p (A @ d @ B))) = d"
  by (cases "d = []") (auto simp: write_at_def min_def)

lemma write_loop_result:
  assumes "handle self = HFile fn Wr p" "u_index self = Some idx"
    "\<forall>b\<in>set ids. map_of (blocks self) b \<noteq> None" "distinct ids"
  shows "\<exists>idx' dev'.
     write_loop L ids off self dev =
       (Inr (),
        self\<lparr>handle := HFile fn Wr (p + length (concat (map (payload L (blocks self)) ids))),
             u_index := Some idx',
             total_length := total_length self + int (length (concat (map (payload L (blocks self)) ids)))\<rparr>,
        dev')
     \<and> content dev' fn = write_at (content dev fn) p (concat (map (payload L (blocks self)) ids))
     \<and> out dev' = out dev
     \<and> (\<forall>g. g \<noteq> fn \<longrightarrow> fs dev' g = fs dev g)
     \<and> (\<forall>k. idx' k =
          (case k of
             IKey b \<Rightarrow>
               if b \<in> set ids
               then Some (Span (off + int (length (concat (map (payload L (blocks self)) (takeWhile (\<lambda>x. x \<noteq> b) ids)))))
                               (int (length (payload L (blocks self) b))))
               else idx k
           | SKey c \<Rightarrow> idx k))"
  using assms
proof (induction ids arbitrary: off self dev p idx)
  case Nil
  show ?case
    by (rule exI[of _ idx], rule exI[of _ dev])
       (auto simp: Nil.prems write_at_def split: pykey.splits)
next
  case (Cons b ids)
  obtain blk where blk: "map_of (blocks self) b = Some blk" using Cons.prems(3) by auto
  let ?d = "payload L (blocks self) b"
  let ?dev1 = "dev\<lparr>fs := (fs dev)(fn \<mapsto> write_at (content dev fn) p ?d)\<rparr>"
  let ?self1 = "self\<lparr>handle := HFile fn Wr (p + length ?d),
                      u_index := Some (idx(IKey b \<mapsto> Span off (int (length ?d)))),
                      total_length := total_length self + int (length ?d)\<rparr>"
  have step: "write_loop L (b # ids) off self dev = write_loop L ids (off + int (length ?d)) ?self1 ?dev1"
    using blk Cons.prems(1,2) by (simp add: serialize_block_def payload_def Let_def)
  have b1: "blocks ?self1 = blocks self" by simp
  have h1: "handle ?self1 = HFile fn Wr (p + length ?d)" by simp
  have h2: "u_index ?self1 = Some (idx(IKey b \<mapsto> Span off (int (length ?d))))" by simp
  have h3: "\<forall>b\<in>set ids. map_of (blocks ?self1) b \<noteq> None" using Cons.prems(3) by simp
  have h4: "distinct ids" using Cons.prems(4) by simp
  note ih = Cons.IH[OF h1 h2 h3 h4, where off = "off + int (length ?d)" and dev = ?dev1, unfolded b1]
  from ih obtain idx' dev' where
    r: "write_loop L ids (off + int (length ?d)) ?self1 ?dev1 =
       (Inr (),
        ?self1\<lparr>handle := HFile fn Wr (p + length ?d + length (concat (map (payload L (blocks self)) ids))),
             u_index := Some idx',
             total_length := total_length ?self1 + int (length (concat (map (payload L (blocks self)) ids)))\<rparr>,
        dev')"
    and c: "content dev' fn = write_at (content ?dev1 fn) (p + length ?d) (concat (map (payload L (blocks self)) ids))"
    and o: "out dev' = out ?dev1"
    and g: "\<forall>g. g \<noteq> fn \<longrightarrow> fs dev' g = fs ?dev1 g"
    and k: "\<forall>k. idx' k =
          (case k of
             IKey b' \<Rightarrow>
               if b' \<in> set ids
               then Some (Span (off + int (length ?d) + int (length (concat (map (payload L (blocks self)) (takeWhile (\<lambda>x. x \<noteq> b') ids)))))
                               (int (length (payload L (blocks self) b'))))
               else (idx(IKey b \<mapsto> Span off (int (length ?d)))) k
           | SKey c \<Rightarrow> (idx(IKey b \<mapsto> Span off (int (length ?d)))) k)"
    by blast
  show ?case
  proof (rule exI[of _ idx'], rule exI[of _ dev'], intro conjI)
    show "write_loop L (b # ids) off self dev =
    (Inr (),
     self\<lparr>handle :=
             HFile fn Wr
              (p + length (concat (map (payload L (blocks self)) (b # ids)))),
           u_index := Some idx',
           total_length :=
             total_length self +
             int (length (concat (map (payload L (blocks self)) (b # ids))))\<rparr>,
     dev')" unfolding step r by (simp add: add.assoc)
    show "content dev' fn = write_at (content dev fn) p (concat (map (payload L (blocks self)) (b # ids)))"
      unfolding c by (simp add: content_def write_at_write_at)
    show "out dev' = out dev" using o by simp
    show "\<forall>g. g \<noteq> fn \<longrightarrow> fs dev' g = fs dev g" using g by simp
    show "\<forall>k. idx' k =
        (case k of
         IKey ba \<Rightarrow>
           if ba \<in> set (b # ids)
           then Some
                 (Span
                   (off +
                    int (length
                          (concat
                            (map (payload L (blocks self))
                              (takeWhile (\<lambda>x. x \<noteq> ba) (b # ids))))))
                   (int (length (payload L (blocks self) ba))))
           else idx k
         | SKey c \<Rightarrow> idx k)"
      using k Cons.prems(4) by (auto split: pykey.splits)
  qed
qed

lemma takeWhile_sorted_filter:
  "sorted xs \<Longrightarrow> distinct xs \<Longrightarrow> (b::int) \<in> set xs \<Longrightarrow> takeWhile (\<lambda>x. x \<noteq> b) xs = filter (\<lambda>x. x < b) xs"
proof (induction xs)
  case Nil
  then show ?case by simp
next
  case (Cons a xs)
  show ?case
  proof (cases "a = b")
    case True
    then have "\<forall>x\<in>set xs. \<not> x < b" using Cons.prems by auto
    then show ?thesis using True by simp
  next
    case False
    then show ?thesis using Cons by auto
  qed
qed

lemma offset_of_conv:
  assumes "distinct (map fst blks)" "b \<in> fst ` set blks"
  shows "int (length (concat (map (payload L blks) (takeWhile (\<lambda>x. x \<noteq> b) (sort (map fst blks))))))
         = offset_of L blks b"
proof -
  let ?ids = "sort (map fst blks)"
  have d: "distinct ?ids" using assms(1) by simp
  have m: "b \<in> set ?ids" using assms(2) by simp
  have t: "takeWhile (\<lambda>x. x \<noteq> b) ?ids = filter (\<lambda>x. x < b) ?ids"
    by (rule takeWhile_sorted_filter[OF _ d m]) simp
  have "int (length (concat (map (payload L blks) (filter (\<lambda>x. x < b) ?ids))))
        = sum_list (map (\<lambda>x. int (length (payload L blks x))) (filter (\<lambda>x. x < b) ?ids))"
    by (simp add: length_concat comp_def sum_list_of_nat[symmetric])
  also have "\<dots> = (\<Sum>x \<in> set (filter (\<lambda>x. x < b) ?ids). int (length (payload L blks x)))"
    using d by (intro sum_list_distinct_conv_sum_set) simp
  also have "set (filter (\<lambda>x. x < b) ?ids) = {b' \<in> fst ` set blks. b' < b}" by auto
  finally show ?thesis unfolding t offset_of_def .
qed

lemma body_slice:
  assumes "distinct (map fst blks)" "b \<in> fst ` set blks"
  shows "take (length (payload L blks b))
            (drop (p + nat (offset_of L blks b)) (write_at c p (body_of L blks))) = payload L blks b"
proof -
  let ?ids = "sort (map fst blks)"
  let ?A = "takeWhile (\<lambda>x. x \<noteq> b) ?ids"
  have m: "b \<in> set ?ids" using assms(2) by simp
  then obtain B where B: "dropWhile (\<lambda>x. x \<noteq> b) ?ids = b # B"
    by (metis (mono_tags, lifting) dropWhile_eq_Nil_conv hd_dropWhile list.collapse)
  have ids: "?ids = ?A @ b # B" using B by (metis takeWhile_dropWhile_id)
  have "body_of L blks = concat (map (payload L blks) ?A) @ payload L blks b @ concat (map (payload L blks) B)"
    unfolding body_of_def by (subst ids) simp
  moreover have "nat (offset_of L blks b) = length (concat (map (payload L blks) ?A))"
    using offset_of_conv[OF assms, of L] by simp
  ultimately show ?thesis by (simp add: write_at_slice)
qed

theorem C7:
  assumes "handle self = HFile fn Wr p" and "u_index self = Some idx"
    and "distinct (map fst (blocks self))"
  shows "\<exists>self' dev' idx'.
     write_and_index L self dev = (Inr (), self', dev')
     \<and> u_index self' = Some idx'
     \<and> content dev' fn = write_at (content dev fn) p
                           (concat (map (payload L (blocks self)) (sort (map fst (blocks self)))))
     \<and> (\<forall>b \<in> fst ` set (blocks self).
           idx' (IKey b) = Some (Span (offset_of L (blocks self) b)
                                      (int (length (payload L (blocks self) b))))
           \<and> take (length (payload L (blocks self) b))
                  (drop (p + nat (offset_of L (blocks self) b)) (content dev' fn))
               = payload L (blocks self) b)"
proof -
  let ?ids = "sort (map fst (blocks self))"
  have o: "open_if_closed self dev = (Inr (), self)"
    using assms(1) by (simp add: open_if_closed_def is_open_def)
  have k: "\<forall>b\<in>set ?ids. map_of (blocks self) b \<noteq> None"
    by (auto simp: map_of_eq_None_iff)
  have d: "distinct ?ids" using assms(3) by simp
  from write_loop_result[OF assms(1,2) k d, of L 0 dev]
  obtain idx' dev' where
    r: "write_loop L ?ids 0 self dev =
       (Inr (),
        self\<lparr>handle := HFile fn Wr (p + length (concat (map (payload L (blocks self)) ?ids))),
             u_index := Some idx',
             total_length := total_length self + int (length (concat (map (payload L (blocks self)) ?ids)))\<rparr>,
        dev')"
    and c: "content dev' fn = write_at (content dev fn) p (concat (map (payload L (blocks self)) ?ids))"
    and i: "\<forall>k. idx' k =
          (case k of
             IKey b \<Rightarrow>
               if b \<in> set ?ids
               then Some (Span (0 + int (length (concat (map (payload L (blocks self)) (takeWhile (\<lambda>x. x \<noteq> b) ?ids)))))
                               (int (length (payload L (blocks self) b))))
               else idx k
           | SKey c \<Rightarrow> idx k)"
    by blast
  let ?s1 = "self\<lparr>handle := HFile fn Wr (p + length (concat (map (payload L (blocks self)) ?ids))),
             u_index := Some idx',
             total_length := total_length self + int (length (concat (map (payload L (blocks self)) ?ids)))\<rparr>"
  let ?s2 = "if combine_close_handles (config ?s1) then close ?s1 else ?s1"
  have w: "write_and_index L self dev = (Inr (), ?s2, dev')"
    by (simp add: write_and_index_def o r)
  have u: "u_index ?s2 = Some idx'" by (simp add: close_def)
  have e: "idx' (IKey b) = Some (Span (offset_of L (blocks self) b) (int (length (payload L (blocks self) b))))"
    if "b \<in> fst ` set (blocks self)" for b
    using i[rule_format, of "IKey b"] that offset_of_conv[OF assms(3) that, of L] by simp
  have sl: "take (length (payload L (blocks self) b))
                  (drop (p + nat (offset_of L (blocks self) b)) (content dev' fn))
               = payload L (blocks self) b" if "b \<in> fst ` set (blocks self)" for b
    unfolding c using body_slice[OF assms(3) that, of L p "content dev fn"] by (simp add: body_of_def)
  show ?thesis
    by (rule exI[of _ ?s2], rule exI[of _ dev'], rule exI[of _ idx'])
       (use w u c e sl in blast)
qed

lemma obj_set_obj: "a < length (objs w) \<Longrightarrow> obj (set_obj a s w) b = (if b = a then s else obj w b)"
  by (simp add: obj_def set_obj_def)

lemma obj_set_obj_other: "a \<noteq> b \<Longrightarrow> obj (set_obj a s w) b = obj w b"
  by (simp add: obj_def set_obj_def)

lemma set_obj_fields [simp]:
  "length (objs (set_obj a s w)) = length (objs w)"
  "io (set_obj a s w) = io w"
  "ACTIVE (set_obj a s w) = ACTIVE w"
  by (simp_all add: set_obj_def)

lemma obj_io_upd [simp]: "obj (w\<lparr>io := d\<rparr>) a = obj w a" "obj (w\<lparr>ACTIVE := A\<rparr>) a = obj w a"
  by (simp_all add: obj_def)

lemma unload_fields [simp]:
  "length (objs (unload a w)) = length (objs w)"
  "io (unload a w) = io w"
  "ACTIVE (unload a w) = removeAll a (ACTIVE w)"
  by (simp_all add: unload_def Let_def)

lemma obj_unload_other: "a \<noteq> b \<Longrightarrow> obj (unload a w) b = obj w b"
  by (simp add: unload_def Let_def obj_set_obj_other)

lemma obj_unload_same:
  "a < length (objs w) \<Longrightarrow> obj (unload a w) a = (obj w a)\<lparr>u_header := None, u_index := None\<rparr>"
  by (simp add: unload_def Let_def obj_set_obj)

lemma lazy_read_header_touch:
  "LazySNFile_read_header L self w =
     (case SNFile_read_header L (seek_start (obj (touch self w) self)) (io (touch self w)) of
        (r, s2, dev2) \<Rightarrow> (r, set_obj self s2 ((touch self w)\<lparr>io := dev2\<rparr>)))"
  by (simp add: LazySNFile_read_header_def touch_def Let_def)

lemma touch_alt:
  "touch self w =
     (let A = removeAll self (ACTIVE w) @ [self]
      in if MAX_ACTIVE < length A
         then (case A of [] \<Rightarrow> w\<lparr>ACTIVE := A\<rparr>
               | oldest_snf # rest \<Rightarrow> unload oldest_snf (w\<lparr>ACTIVE := rest\<rparr>))
         else w\<lparr>ACTIVE := A\<rparr>)"
  by (simp add: touch_def Let_def split: list.splits)

lemma touch_fields [simp]:
  "length (objs (touch self w)) = length (objs w)"
  "io (touch self w) = io w"
  by (simp_all add: touch_alt Let_def split: list.splits)

lemma evicted_not_self:
  assumes "removeAll self A @ [self] = x # rest" "MAX_ACTIVE < length (removeAll self A @ [self])"
  shows "x \<noteq> self"
proof (cases "removeAll self A")
  case Nil
  then show ?thesis using assms by (simp add: MAX_ACTIVE_def)
next
  case (Cons y ys)
  then have "x = y" "y \<in> set (removeAll self A)" using assms by auto
  then show ?thesis by auto
qed

lemma obj_touch_self: "obj (touch self w) self = obj w self"
proof (cases "MAX_ACTIVE < length (removeAll self (ACTIVE w) @ [self])")
  case True
  obtain x rest where A: "removeAll self (ACTIVE w) @ [self] = x # rest"
    by (cases "removeAll self (ACTIVE w) @ [self]") auto
  have t: "touch self w = unload x (w\<lparr>ACTIVE := rest\<rparr>)"
    using True A by (simp add: touch_alt Let_def)
  show ?thesis unfolding t using evicted_not_self[OF A True] by (simp add: obj_unload_other)
next
  case False
  then show ?thesis by (simp add: touch_alt Let_def)
qed

lemma lazy_read_header_obj:
  "LazySNFile_read_header L self w =
     (case SNFile_read_header L (seek_start (obj w self)) (io w) of
        (r, s2, dev2) \<Rightarrow> (r, set_obj self s2 ((touch self w)\<lparr>io := dev2\<rparr>)))"
  by (simp add: lazy_read_header_touch obj_touch_self)

lemma open_if_closed_frame:
  "open_if_closed s dev = (r, s') \<Longrightarrow> s' = s\<lparr>handle := handle s'\<rparr>"
  by (auto simp: open_if_closed_def open_rb_def close_def is_open_def Let_def
           split: if_splits option.splits)

lemma SNFile_read_header_frame:
  assumes "SNFile_read_header L s dev = (r, s2, dev2)"
  shows "config s2 = config s \<and> filename s2 = filename s \<and> blocks s2 = blocks s
       \<and> total_length s2 = total_length s \<and> lazy s2 = lazy s \<and> fs dev2 = fs dev"
proof -
  obtain r0 s1 where o: "open_if_closed s dev = (r0, s1)" by (cases "open_if_closed s dev")
  have s1: "s1 = s\<lparr>handle := handle s1\<rparr>" by (rule open_if_closed_frame[OF o])
  have f: "config s1 = config s \<and> filename s1 = filename s \<and> blocks s1 = blocks s
       \<and> total_length s1 = total_length s \<and> lazy s1 = lazy s" by (subst s1, simp)+
  show ?thesis using assms f unfolding SNFile_read_header_def o
    by (auto simp: Let_def close_def split: sum.splits handle.splits mode.splits option.splits if_splits)
qed

lemma SNFile_read_header_ok:
  assumes "SNFile_read_header L s dev = (Inr (), s2, dev2)"
  shows "(\<exists>h idx. u_header s2 = Some h \<and> h_index h = Some idx \<and> u_index s2 = Some idx) \<and> dev2 = dev"
proof -
  obtain r0 s1 where o: "open_if_closed s dev = (r0, s1)" by (cases "open_if_closed s dev")
  show ?thesis using assms unfolding SNFile_read_header_def o
    by (auto simp: Let_def close_def split: sum.splits handle.splits mode.splits option.splits if_splits)
qed

lemma read_header_world:
  assumes "self < length (objs w)" "read_header L self w = (r, w')"
  shows "length (objs w') = length (objs w)
     \<and> (\<exists>s1. SNFile_read_header L s1 (io w) = (r, obj w' self, io w')
            \<and> s1 = (if lazy (obj w self) then seek_start (obj w self) else obj w self))"
proof (cases "lazy (obj w self)")
  case True
  obtain r2 s2 dev2 where h: "SNFile_read_header L (seek_start (obj w self)) (io w) = (r2, s2, dev2)"
    by (metis prod_cases3)
  then show ?thesis using assms True
    by (auto simp: read_header_def lazy_read_header_obj obj_set_obj)
next
  case False
  obtain r2 s2 dev2 where h: "SNFile_read_header L (obj w self) (io w) = (r2, s2, dev2)"
    by (metis prod_cases3)
  then show ?thesis using assms False
    by (auto simp: read_header_def obj_set_obj)
qed

lemma seek_start_fields [simp]:
  "lazy (seek_start s) = lazy s" "config (seek_start s) = config s"
  "filename (seek_start s) = filename s" "blocks (seek_start s) = blocks s"
  "total_length (seek_start s) = total_length s" "u_header (seek_start s) = u_header s"
  "u_index (seek_start s) = u_index s" "header_length (seek_start s) = header_length s"
  by (simp_all add: seek_start_def split: handle.splits)

lemma index_result:
  assumes "self < length (objs w)" "index L self w = (Inr r, w')"
  shows "r = u_index (obj w' self) \<and> \<not> (lazy (obj w' self) \<and> u_header (obj w' self) = None)
       \<and> length (objs w') = length (objs w)"
proof (cases "lazy (obj w self) \<and> u_header (obj w self) = None")
  case True
  obtain r1 w1 where rh: "read_header L self w = (r1, w1)" by (cases "read_header L self w")
  have r1: "r1 = Inr ()" "w' = w1" "r = u_index (obj w1 self)"
    using assms(2) True rh by (auto simp: index_def split: sum.splits)
  from read_header_world[OF assms(1) rh] obtain s1 where
    l: "length (objs w1) = length (objs w)"
    and h: "SNFile_read_header L s1 (io w) = (r1, obj w1 self, io w1)" by blast
  from SNFile_read_header_ok[OF h[unfolded r1(1)]] have "u_header (obj w1 self) \<noteq> None" by auto
  then show ?thesis using r1 l by simp
next
  case False
  then show ?thesis using assms(2) by (auto simp: index_def)
qed

lemma index_stable:
  assumes "self < length (objs w)" "index L self w = (Inr r, w')"
  shows "index L self w' = (Inr r, w')"
  using index_result[OF assms] by (auto simp: index_def)

lemma read_blocks_unfold:
  assumes l: "self < length (objs w)"
    and o: "open_if_closed (obj w self) (io w) = (Inr (), s)"
    and i: "index L self (set_obj self s w) = (Inr (Some idx), w2)"
  shows "read_blocks L contig block_index self w =
     (case idx contig of
        None \<Rightarrow> (Inr None, close_if_configured self w2)
      | Some (Span offset len) \<Rightarrow> (Inr None, close_if_configured self w2)
      | Some (Ranges m) \<Rightarrow>
          (case m (py_str block_index) of
             None \<Rightarrow> (Inr None, close_if_configured self w2)
           | Some ranges \<Rightarrow>
               (case read_ranges L contig (py_str block_index) ranges [] (obj w2 self) (io w2) of
                  (Inl e, s5, dev5) \<Rightarrow> (Inl e, set_obj self s5 (w2\<lparr>io := dev5\<rparr>))
                | (Inr blks, s5, dev5) \<Rightarrow>
                    (Inr (Some blks),
                     close_if_configured self (set_obj self s5 (w2\<lparr>io := dev5\<rparr>))))))"
proof -
  have l1: "self < length (objs (set_obj self s w))" using l by simp
  have i2: "index L self w2 = (Inr (Some idx), w2)" by (rule index_stable[OF l1 i])
  show ?thesis
    unfolding read_blocks_def o
    by (simp add: Let_def i i2 split: option.splits ientry.splits prod.splits sum.splits)
qed

lemma same_dev_refl: "same_dev s s"
  by (simp add: same_dev_def split: handle.splits)

lemma read_range_same_dev: "read_range L r s dev = (x, s') \<Longrightarrow> same_dev s s'"
  by (cases r) (auto simp: read_range_def same_dev_def Let_def
           split: handle.splits option.splits if_splits sum.splits)

lemma same_dev_read_range: 
  assumes "same_dev s s'" shows "fst (read_range L r s' dev) = fst (read_range L r s dev)"
proof -
  have hl: "header_length s' = header_length s" using assms unfolding same_dev_def
    by (metis snfile.select_convs(8) snfile.surjective snfile.update_convs(2))
  show ?thesis
  proof (cases "handle s")
    case HFalse
    then have "handle s' = HFalse" using assms by (simp add: same_dev_def)
    then show ?thesis using HFalse by (cases r) (simp add: read_range_def)
  next
    case (HFile fn m p)
    then obtain p' where "handle s' = HFile fn m p'" using assms by (auto simp: same_dev_def)
    then show ?thesis using HFile hl 
      by (cases r) (auto simp: read_range_def Let_def split: option.splits sum.splits)
  qed
qed

lemma same_dev_fields:
  assumes "same_dev s s'"
  shows "config s' = config s" "filename s' = filename s" "u_index s' = u_index s"
    "u_header s' = u_header s" "blocks s' = blocks s" "lazy s' = lazy s"
    "header_length s' = header_length s" "total_length s' = total_length s"
proof -
  have e: "s' = s\<lparr>handle := handle s'\<rparr>" using assms by (simp add: same_dev_def)
  show "config s' = config s" "filename s' = filename s" "u_index s' = u_index s"
    "u_header s' = u_header s" "blocks s' = blocks s" "lazy s' = lazy s"
    "header_length s' = header_length s" "total_length s' = total_length s"
    by (subst e, simp)+
qed

lemma same_dev_close: "same_dev s s' \<Longrightarrow> s'' = s'\<lparr>handle := h\<rparr> \<Longrightarrow> s'' = s\<lparr>handle := h\<rparr>"
  unfolding same_dev_def by (metis snfile.surjective snfile.update_convs(2))

lemma read_ranges_frame:
  "read_ranges L contig bi rs acc s dev = (x, s', dev') \<Longrightarrow> s' = s\<lparr>handle := handle s'\<rparr>"
proof (induction rs arbitrary: acc s)
  case Nil
  then show ?case by simp
next
  case (Cons r rs)
  obtain y s1 where rr: "read_range L r s dev = (y, s1)" by (cases "read_range L r s dev")
  note sd = read_range_same_dev[OF rr]
  show ?case
  proof (cases y)
    case (Inl e)
    then have "s' = (if combine_close_handles (config s1) then close s1 else s1)"
      using Cons.prems rr by simp
    then have "s' = s1\<lparr>handle := handle s'\<rparr>" by (auto simp: close_def)
    then show ?thesis using sd same_dev_close by blast
  next
    case (Inr blk)
    then have "read_ranges L contig bi rs (acc @ [blk]) s1 dev = (x, s', dev')"
      using Cons.prems rr by simp
    from Cons.IH[OF this] show ?thesis using sd same_dev_close by blast
  qed
qed

lemma read_ranges_fail:
  assumes "\<forall>q\<in>set pre. \<exists>blk. fst (read_range L q s dev) = Inr blk"
    and "fst (read_range L r s dev) = Inl e"
  shows "\<exists>s'. read_ranges L contig bi (pre @ r # post) acc s dev =
            (Inl e, s', dev\<lparr>out := out dev @ [BlockError contig bi (filename s) e]\<rparr>)
          \<and> (combine_close_handles (config s) \<longrightarrow> handle s' = HFalse)"
  using assms
proof (induction pre arbitrary: acc s)
  case Nil
  obtain y s1 where rr: "read_range L r s dev = (y, s1)" by (cases "read_range L r s dev")
  note sd = same_dev_fields[OF read_range_same_dev[OF rr]]
  have "y = Inl e" using Nil.prems(2) rr by simp
  then show ?case using rr sd by (auto simp: close_def)
next
  case (Cons q pre)
  obtain y s1 where rr: "read_range L q s dev = (y, s1)" by (cases "read_range L q s dev")
  note sd = read_range_same_dev[OF rr]
  obtain blk where y: "y = Inr blk" using Cons.prems(1) rr by auto
  have 1: "\<forall>q\<in>set pre. \<exists>blk. fst (read_range L q s1 dev) = Inr blk"
    using Cons.prems(1) same_dev_read_range[OF sd] by simp
  have 2: "fst (read_range L r s1 dev) = Inl e"
    using Cons.prems(2) same_dev_read_range[OF sd] by simp
  from Cons.IH[OF 1 2, of "acc @ [blk]"] show ?case
    using rr y same_dev_fields[OF sd] by simp
qed

lemma read_ranges_Inr_dev:
  "read_ranges L contig bi rs acc s dev = (Inr blks, s', dev') \<Longrightarrow> dev' = dev"
proof (induction rs arbitrary: acc s)
  case Nil
  then show ?case by simp
next
  case (Cons r rs)
  then show ?case by (auto split: prod.splits sum.splits)
qed

lemma close_if_configured_obj:
  "self < length (objs w) \<Longrightarrow> obj (close_if_configured self w) self
     = (if combine_close_handles (config (obj w self)) then close (obj w self) else obj w self)"
  by (simp add: close_if_configured_def obj_set_obj)

lemma close_if_configured_io [simp]: "io (close_if_configured self w) = io w"
  by (simp add: close_if_configured_def)

theorem C5:
  assumes "self < length (objs w)"
    and "open_if_closed (obj w self) (io w) = (Inr (), s)"
    and "index L self (set_obj self s w) = (Inr (Some idx), w2)"
    and "idx contig = None \<or> (\<exists>offset len. idx contig = Some (Span offset len))
         \<or> (\<exists>m. idx contig = Some (Ranges m) \<and> m (py_str block_index) = None)"
  shows "read_blocks L contig block_index self w = (Inr None, close_if_configured self w2)
       \<and> out (io (close_if_configured self w2)) = out (io w2)"
  using assms(4) unfolding read_blocks_unfold[OF assms(1,2,3)]
  by auto

theorem C6:
  assumes "self < length (objs w)"
    and "open_if_closed (obj w self) (io w) = (Inr (), s)"
    and "index L self (set_obj self s w) = (Inr (Some idx), w2)"
    and "idx contig = Some (Ranges m)" and "m (py_str block_index) = Some (pre @ r # post)"
    and "\<forall>q\<in>set pre. \<exists>blk. fst (read_range L q (obj w2 self) (io w2)) = Inr blk"
    and "fst (read_range L r (obj w2 self) (io w2)) = Inl e"
  shows "\<exists>w'. read_blocks L contig block_index self w = (Inl e, w')
       \<and> out (io w') = out (io w2) @ [BlockError contig (py_str block_index) (filename (obj w2 self)) e]
       \<and> (combine_close_handles (config (obj w2 self)) \<longrightarrow> handle (obj w' self) = HFalse)"
proof -
  from read_ranges_fail[OF assms(6,7), of contig "py_str block_index" post "[]"]
  obtain s' where rr: "read_ranges L contig (py_str block_index) (pre @ r # post) [] (obj w2 self) (io w2) =
            (Inl e, s', (io w2)\<lparr>out := out (io w2) @ [BlockError contig (py_str block_index) (filename (obj w2 self)) e]\<rparr>)"
     and c: "combine_close_handles (config (obj w2 self)) \<longrightarrow> handle s' = HFalse" by blast
  have l2: "self < length (objs w2)" using index_result[OF _ assms(3)] assms(1) by simp
  show ?thesis unfolding read_blocks_unfold[OF assms(1,2,3)]
    using c l2 by (simp add: assms(4,5) rr obj_set_obj)
qed

theorem C9:
  assumes "self < length (objs w)"
  shows "read_blocks L contig (PInt b) self w = read_blocks L contig (PStr (str_int b)) self w
     \<and> (\<forall>blks. fst (read_blocks L contig (PInt b) self w) = Inr (Some blks) \<longrightarrow>
          (\<exists>idx m. u_index (obj (snd (read_blocks L contig (PInt b) self w)) self) = Some idx
                 \<and> idx contig = Some (Ranges m) \<and> m (str_int b) \<noteq> None))"
proof (intro conjI allI impI)
  show "read_blocks L contig (PInt b) self w = read_blocks L contig (PStr (str_int b)) self w"
    by (simp only: read_blocks_def py_str.simps)
next
  fix blks assume ok: "fst (read_blocks L contig (PInt b) self w) = Inr (Some blks)"
  obtain r0 s where o: "open_if_closed (obj w self) (io w) = (r0, s)"
    by (cases "open_if_closed (obj w self) (io w)")
  have r0: "r0 = Inr ()" using ok o by (cases r0) (auto simp: read_blocks_def)
  obtain r1 w2 where i: "index L self (set_obj self s w) = (r1, w2)"
    by (cases "index L self (set_obj self s w)")
  obtain idx where r1: "r1 = Inr (Some idx)"
    using ok o i r0 by (cases r1) (auto simp: read_blocks_def Let_def split: option.splits)
  note u = read_blocks_unfold[OF assms o[unfolded r0] i[unfolded r1], of contig "PInt b"]
  have l1: "self < length (objs (set_obj self s w))" using assms by simp
  note ir = index_result[OF l1 i[unfolded r1]]
  have l2: "self < length (objs w2)" using ir assms by simp
  obtain m where m: "idx contig = Some (Ranges m)"
    using ok unfolding u by (auto split: option.splits ientry.splits)
  obtain ranges where rg: "m (str_int b) = Some ranges"
    using ok m unfolding u by (auto split: option.splits)
  obtain s5 dev5 where rr: "read_ranges L contig (str_int b) ranges [] (obj w2 self) (io w2) = (Inr blks, s5, dev5)"
    using ok m rg unfolding u by (auto split: prod.splits sum.splits)
  have s5: "u_index s5 = u_index (obj w2 self)" by (subst read_ranges_frame[OF rr]) simp
  have fin: "snd (read_blocks L contig (PInt b) self w) = close_if_configured self (set_obj self s5 (w2\<lparr>io := dev5\<rparr>))"
    unfolding u by (simp add: m rg rr)
  have "u_index (obj (snd (read_blocks L contig (PInt b) self w)) self) = Some idx"
    unfolding fin using l2 ir s5 by (simp add: close_if_configured_obj obj_set_obj close_def)
  then show "\<exists>idx m. u_index (obj (snd (read_blocks L contig (PInt b) self w)) self) = Some idx
                 \<and> idx contig = Some (Ranges m) \<and> m (str_int b) \<noteq> None"
    using m rg by auto
qed

end
